theory Spec2Isabelle
  imports Complex_Main "HOL-Library.Signed_Division"
begin

section \<open>Arithmetic of the C++ source\<close>

text \<open>
  The sampler is written in C++ on top of JUCE.  Its \<open>int\<close> values stay far below
  \<open>2^31\<close> (the ring holds 2880000 samples), so they are modelled by \<open>int\<close>, with the
  truncating \<open>/\<close> and \<open>%\<close> of C++ written \<open>sdiv\<close> and \<open>smod\<close>.

  A \<open>float\<close> or \<open>double\<close> is a value of \<open>fl\<close>: a finite number, an infinity or a NaN.
  The special values follow IEEE 754, and the two zeros are identified, a division of a
  nonzero finite number by zero giving the infinity of the sign of the numerator.  The
  arithmetic of the samples (\<open>fadd\<close>, \<open>fsub\<close>, \<open>fmul\<close>, \<open>fdiv\<close>) gives the exact real
  result when it is finite: rounding is not modelled there.  It is modelled for the
  trim positions, where a \<open>float\<close> decides an index or an order (\<open>float32\<close> below).
\<close>

datatype fl = Fin real | PInf | NInf | NaN

datatype error = OutOfBounds | DivisionByZero | NonFiniteToInt | BadAlloc | NullPointer

fun fneg :: "fl \<Rightarrow> fl" where
  "fneg (Fin x) = Fin (- x)"
| "fneg PInf = NInf"
| "fneg NInf = PInf"
| "fneg NaN = NaN"

fun fadd :: "fl \<Rightarrow> fl \<Rightarrow> fl" where
  "fadd (Fin x) (Fin y) = Fin (x + y)"
| "fadd NaN _ = NaN"
| "fadd _ NaN = NaN"
| "fadd PInf NInf = NaN"
| "fadd NInf PInf = NaN"
| "fadd PInf _ = PInf"
| "fadd _ PInf = PInf"
| "fadd NInf _ = NInf"
| "fadd _ NInf = NInf"

definition fsub :: "fl \<Rightarrow> fl \<Rightarrow> fl" where
  "fsub a b = fadd a (fneg b)"

fun fmul :: "fl \<Rightarrow> fl \<Rightarrow> fl" where
  "fmul (Fin x) (Fin y) = Fin (x * y)"
| "fmul NaN _ = NaN"
| "fmul _ NaN = NaN"
| "fmul PInf (Fin y) = (if y = 0 then NaN else if 0 < y then PInf else NInf)"
| "fmul NInf (Fin y) = (if y = 0 then NaN else if 0 < y then NInf else PInf)"
| "fmul (Fin x) PInf = (if x = 0 then NaN else if 0 < x then PInf else NInf)"
| "fmul (Fin x) NInf = (if x = 0 then NaN else if 0 < x then NInf else PInf)"
| "fmul PInf PInf = PInf"
| "fmul NInf NInf = PInf"
| "fmul PInf NInf = NInf"
| "fmul NInf PInf = NInf"

fun fdiv :: "fl \<Rightarrow> fl \<Rightarrow> fl" where
  "fdiv (Fin x) (Fin y) =
     (if y = 0 then (if x = 0 then NaN else if 0 < x then PInf else NInf) else Fin (x / y))"
| "fdiv NaN _ = NaN"
| "fdiv _ NaN = NaN"
| "fdiv (Fin x) PInf = Fin 0"
| "fdiv (Fin x) NInf = Fin 0"
| "fdiv PInf (Fin y) = (if 0 \<le> y then PInf else NInf)"
| "fdiv NInf (Fin y) = (if 0 \<le> y then NInf else PInf)"
| "fdiv PInf PInf = NaN"
| "fdiv PInf NInf = NaN"
| "fdiv NInf PInf = NaN"
| "fdiv NInf NInf = NaN"

fun flt :: "fl \<Rightarrow> fl \<Rightarrow> bool" where
  "flt (Fin x) (Fin y) = (x < y)"
| "flt NaN _ = False"
| "flt _ NaN = False"
| "flt _ NInf = False"
| "flt PInf _ = False"
| "flt NInf _ = True"
| "flt _ PInf = True"

fun fle :: "fl \<Rightarrow> fl \<Rightarrow> bool" where
  "fle (Fin x) (Fin y) = (x \<le> y)"
| "fle NaN _ = False"
| "fle _ NaN = False"
| "fle NInf _ = True"
| "fle _ PInf = True"
| "fle _ NInf = False"
| "fle PInf _ = False"

text \<open>
  \<open>juce::roundToInt\<close> adds the constant \<open>1.5 * 2^52\<close> to its argument and reads the low
  word of the sum, which rounds to the nearest integer, a tie going to the even one.
  The conversion of an infinity or a NaN has no meaning and is an error of the model.
\<close>

definition roundHalfEven :: "real \<Rightarrow> int" where
  "roundHalfEven x =
     (let f = \<lfloor>x\<rfloor>; d = x - of_int f
      in if d < 1 / 2 then f else if 1 / 2 < d then f + 1 else if even f then f else f + 1)"

fun roundToInt :: "fl \<Rightarrow> error + int" where
  "roundToInt (Fin x) = Inr (roundHalfEven x)"
| "roundToInt _ = Inl NonFiniteToInt"

text \<open>
  Rounding to \<open>float\<close> (binary32).  \<open>pow2 e\<close> is \<open>2^e\<close>, and \<open>binade x\<close> the exponent of the
  binade of \<open>x\<close>: the greatest \<open>e\<close> with \<open>2^e \<le> |x|\<close>, kept between \<open>-126\<close> (the exponent of the
  subnormal numbers) and \<open>127\<close>.  \<open>float32 x\<close> is the \<open>float\<close> nearest to the real \<open>x\<close>: the
  multiple of \<open>2^(binade x - 23)\<close> nearest to it, a tie going to the even multiple, and an
  infinity when that is \<open>2^128\<close> or beyond.  \<open>fmulf\<close>, \<open>faddf\<close> and \<open>fsubf\<close> are the product,
  the sum and the difference of two \<open>float\<close>s, a \<open>float\<close> again, and \<open>float_of_int\<close> the
  conversion of an \<open>int\<close> operand to \<open>float\<close>.
\<close>

definition pow2 :: "int \<Rightarrow> real" where
  "pow2 e = (if 0 \<le> e then 2 ^ nat e else 1 / 2 ^ nat (- e))"

definition binade :: "real \<Rightarrow> int" where
  "binade x = - 126 + int (length (filter (\<lambda>e. pow2 e \<le> \<bar>x\<bar>) [- 125..127]))"

definition float32 :: "real \<Rightarrow> fl" where
  "float32 x =
     (let u = pow2 (binade x - 23);
          r = of_int (roundHalfEven (x / u)) * u
      in if pow2 128 \<le> \<bar>r\<bar> then (if 0 < x then PInf else NInf) else Fin r)"

definition fmulf :: "fl \<Rightarrow> fl \<Rightarrow> fl" where
  "fmulf a b = (case fmul a b of Fin r \<Rightarrow> float32 r | v \<Rightarrow> v)"

definition faddf :: "fl \<Rightarrow> fl \<Rightarrow> fl" where
  "faddf a b = (case fadd a b of Fin r \<Rightarrow> float32 r | v \<Rightarrow> v)"

definition fsubf :: "fl \<Rightarrow> fl \<Rightarrow> fl" where
  "fsubf a b = (case fsub a b of Fin r \<Rightarrow> float32 r | v \<Rightarrow> v)"

definition float_of_int :: "int \<Rightarrow> fl" where
  "float_of_int n = float32 (of_int n)"

section \<open>juce::AudioBuffer\<close>

text \<open>
  An audio buffer is the list of its channels, each the list of its samples.  JUCE
  checks the indices of \<open>getSample\<close> and \<open>setSample\<close> by assertions of the debug build
  only; an index out of range is the error \<open>OutOfBounds\<close> here.
\<close>

type_synonym AudioBuffer = "fl list list"

definition getNumChannels :: "AudioBuffer \<Rightarrow> int" where
  "getNumChannels b = int (length b)"

definition getNumSamples :: "AudioBuffer \<Rightarrow> int" where
  "getNumSamples b = (case b of [] \<Rightarrow> 0 | c # _ \<Rightarrow> int (length c))"

definition getSample :: "AudioBuffer \<Rightarrow> int \<Rightarrow> int \<Rightarrow> error + fl" where
  "getSample b ch i =
     (if 0 \<le> ch \<and> ch < getNumChannels b \<and> 0 \<le> i \<and> i < int (length (b ! nat ch))
      then Inr (b ! nat ch ! nat i) else Inl OutOfBounds)"

definition setSample :: "AudioBuffer \<Rightarrow> int \<Rightarrow> int \<Rightarrow> fl \<Rightarrow> error + AudioBuffer" where
  "setSample b ch i v =
     (if 0 \<le> ch \<and> ch < getNumChannels b \<and> 0 \<le> i \<and> i < int (length (b ! nat ch))
      then Inr (b[nat ch := (b ! nat ch)[nat i := v]]) else Inl OutOfBounds)"

text \<open>A buffer is rectangular when every channel has the length \<open>getNumSamples\<close> reports.\<close>

definition rect :: "AudioBuffer \<Rightarrow> bool" where
  "rect b = list_all (\<lambda>c. int (length c) = getNumSamples b) b"

section \<open>CircularAudioBuffer\<close>

record CircularAudioBuffer =
  buffer :: AudioBuffer
  writePos :: int
  size_rb :: int

text \<open>
  The constructor allocates \<open>AudioBuffer(numChannels, maxLengthInSamples)\<close>, which JUCE
  leaves uninitialised: the first contents \<open>g\<close> are whatever the memory held.
\<close>

definition CircularAudioBuffer_new :: "AudioBuffer \<Rightarrow> int \<Rightarrow> CircularAudioBuffer" where
  "CircularAudioBuffer_new g maxLengthInSamples =
     \<lparr>buffer = g, writePos = 0, size_rb = maxLengthInSamples\<rparr>"

text \<open>
  \<open>CircularAudioBuffer::write\<close> is \<open>write_rb\<close> here (\<open>write\<close> is a keyword of Isabelle).
  Its inner loop: sample \<open>i\<close> of the source goes to \<open>pos\<close>, \<open>k\<close> samples remain.\<close>

fun write_samples ::
  "int \<Rightarrow> AudioBuffer \<Rightarrow> int \<Rightarrow> nat \<Rightarrow> nat \<Rightarrow> int \<Rightarrow> AudioBuffer \<Rightarrow> error + AudioBuffer" where
  "write_samples sz src ch i 0 pos buf = Inr buf"
| "write_samples sz src ch i (Suc k) pos buf =
     (case getSample src ch (int i) of Inl e \<Rightarrow> Inl e | Inr v \<Rightarrow>
      (case setSample buf ch pos v of Inl e \<Rightarrow> Inl e | Inr buf' \<Rightarrow>
         write_samples sz src ch (Suc i) k (if pos + 1 \<ge> sz then 0 else pos + 1) buf'))"

text \<open>The outer loop of \<open>write\<close>: channel \<open>ch\<close> is next, \<open>m\<close> channels remain.\<close>

fun write_channels ::
  "int \<Rightarrow> AudioBuffer \<Rightarrow> nat \<Rightarrow> int \<Rightarrow> nat \<Rightarrow> nat \<Rightarrow> AudioBuffer \<Rightarrow> error + AudioBuffer" where
  "write_channels sz src n wp ch 0 buf = Inr buf"
| "write_channels sz src n wp ch (Suc m) buf =
     (case write_samples sz src (int ch) 0 n wp buf of Inl e \<Rightarrow> Inl e | Inr buf' \<Rightarrow>
        write_channels sz src n wp (Suc ch) m buf')"

definition write_rb :: "CircularAudioBuffer \<Rightarrow> AudioBuffer \<Rightarrow> error + CircularAudioBuffer" where
  "write_rb rb sourceBuffer =
     (let numSamples = getNumSamples sourceBuffer;
          numChannels = min (getNumChannels sourceBuffer) (getNumChannels (buffer rb))
      in case write_channels (size_rb rb) sourceBuffer (nat numSamples) (writePos rb)
                0 (nat numChannels) (buffer rb) of
           Inl e \<Rightarrow> Inl e
         | Inr buf' \<Rightarrow>
             if size_rb rb = 0 then Inl DivisionByZero
             else Inr (rb\<lparr>buffer := buf', writePos := (writePos rb + numSamples) smod size_rb rb\<rparr>))"

text \<open>The inner loop of \<open>copyTo\<close>: the sample at \<open>readPos\<close> goes to index \<open>i\<close> of the destination.\<close>

fun copy_samples ::
  "int \<Rightarrow> AudioBuffer \<Rightarrow> int \<Rightarrow> nat \<Rightarrow> nat \<Rightarrow> int \<Rightarrow> AudioBuffer \<Rightarrow> error + AudioBuffer" where
  "copy_samples sz buf ch i 0 readPos dest = Inr dest"
| "copy_samples sz buf ch i (Suc k) readPos dest =
     (case getSample buf ch readPos of Inl e \<Rightarrow> Inl e | Inr v \<Rightarrow>
      (case setSample dest ch (int i) v of Inl e \<Rightarrow> Inl e | Inr dest' \<Rightarrow>
         copy_samples sz buf ch (Suc i) k (if readPos + 1 \<ge> sz then 0 else readPos + 1) dest'))"

definition startReadPos :: "CircularAudioBuffer \<Rightarrow> int \<Rightarrow> int" where
  "startReadPos rb startSample =
     (let readPos = (writePos rb - size_rb rb + startSample) smod size_rb rb
      in if readPos < 0 then readPos + size_rb rb else readPos)"

fun copy_channels ::
  "CircularAudioBuffer \<Rightarrow> int \<Rightarrow> nat \<Rightarrow> nat \<Rightarrow> nat \<Rightarrow> AudioBuffer \<Rightarrow> error + AudioBuffer" where
  "copy_channels rb startSample n ch 0 dest = Inr dest"
| "copy_channels rb startSample n ch (Suc m) dest =
     (if size_rb rb = 0 then Inl DivisionByZero
      else case copy_samples (size_rb rb) (buffer rb) (int ch) 0 n
                  (startReadPos rb startSample) dest of
             Inl e \<Rightarrow> Inl e
           | Inr dest' \<Rightarrow> copy_channels rb startSample n (Suc ch) m dest')"

definition copyTo :: "CircularAudioBuffer \<Rightarrow> AudioBuffer \<Rightarrow> int \<Rightarrow> int \<Rightarrow> error + AudioBuffer" where
  "copyTo rb destBuffer startSample endSample =
     (let numChannels = min (getNumChannels destBuffer) (getNumChannels (buffer rb));
          numSamples = min (getNumSamples destBuffer) (endSample - startSample)
      in copy_channels rb startSample (nat numSamples) 0 (nat numChannels) destBuffer)"

text \<open>
  The other operations of \<open>juce::AudioBuffer\<close> the sampler calls, after their documented
  contracts.  A buffer that JUCE allocates without clearing is cleared or overwritten
  in full before the sampler reads it, so a fresh buffer holds zeros here; a negative
  size is the error \<open>BadAlloc\<close>.
\<close>

definition newBuffer :: "int \<Rightarrow> int \<Rightarrow> error + AudioBuffer" where
  "newBuffer numChannels numSamples =
     (if numChannels < 0 \<or> numSamples < 0 then Inl BadAlloc
      else Inr (replicate (nat numChannels) (replicate (nat numSamples) (Fin 0))))"

definition clear :: "AudioBuffer \<Rightarrow> AudioBuffer" where
  "clear b = map (map (\<lambda>_. Fin 0)) b"

definition clearRegion :: "AudioBuffer \<Rightarrow> int \<Rightarrow> int \<Rightarrow> int \<Rightarrow> error + AudioBuffer" where
  "clearRegion b ch startSample numSamples =
     (if 0 \<le> ch \<and> ch < getNumChannels b \<and> 0 \<le> startSample \<and> 0 \<le> numSamples
         \<and> startSample + numSamples \<le> int (length (b ! nat ch))
      then Inr (b[nat ch := take (nat startSample) (b ! nat ch)
                            @ replicate (nat numSamples) (Fin 0)
                            @ drop (nat (startSample + numSamples)) (b ! nat ch)])
      else Inl OutOfBounds)"

definition copyFrom ::
  "AudioBuffer \<Rightarrow> int \<Rightarrow> int \<Rightarrow> AudioBuffer \<Rightarrow> int \<Rightarrow> int \<Rightarrow> int \<Rightarrow> error + AudioBuffer" where
  "copyFrom dest destChannel destStart src srcChannel srcStart numSamples =
     (if 0 \<le> destChannel \<and> destChannel < getNumChannels dest
         \<and> 0 \<le> srcChannel \<and> srcChannel < getNumChannels src
         \<and> 0 \<le> destStart \<and> 0 \<le> srcStart \<and> 0 \<le> numSamples
         \<and> destStart + numSamples \<le> int (length (dest ! nat destChannel))
         \<and> srcStart + numSamples \<le> int (length (src ! nat srcChannel))
      then Inr (dest[nat destChannel :=
                  take (nat destStart) (dest ! nat destChannel)
                  @ take (nat numSamples) (drop (nat srcStart) (src ! nat srcChannel))
                  @ drop (nat (destStart + numSamples)) (dest ! nat destChannel)])
      else Inl OutOfBounds)"

definition addFrom ::
  "AudioBuffer \<Rightarrow> int \<Rightarrow> int \<Rightarrow> AudioBuffer \<Rightarrow> int \<Rightarrow> int \<Rightarrow> int \<Rightarrow> error + AudioBuffer" where
  "addFrom dest destChannel destStart src srcChannel srcStart numSamples =
     (if 0 \<le> destChannel \<and> destChannel < getNumChannels dest
         \<and> 0 \<le> srcChannel \<and> srcChannel < getNumChannels src
         \<and> 0 \<le> destStart \<and> 0 \<le> srcStart \<and> 0 \<le> numSamples
         \<and> destStart + numSamples \<le> int (length (dest ! nat destChannel))
         \<and> srcStart + numSamples \<le> int (length (src ! nat srcChannel))
      then Inr (dest[nat destChannel :=
                  take (nat destStart) (dest ! nat destChannel)
                  @ map2 fadd (take (nat numSamples) (drop (nat destStart) (dest ! nat destChannel)))
                              (take (nat numSamples) (drop (nat srcStart) (src ! nat srcChannel)))
                  @ drop (nat (destStart + numSamples)) (dest ! nat destChannel)])
      else Inl OutOfBounds)"

section \<open>PitchDetector\<close>

record PitchDetector =
  sampleRate :: real
  bufferSize :: int
  yinBuffer :: "fl list"

text \<open>\<open>yinBuffer.resize(bufferSize / 2)\<close> fills the vector with zeros; a negative size throws.\<close>

definition PitchDetector_new :: "real \<Rightarrow> int \<Rightarrow> error + PitchDetector" where
  "PitchDetector_new sr bs =
     (if bs sdiv 2 < 0 then Inl BadAlloc
      else Inr \<lparr>sampleRate = sr, bufferSize = bs,
                yinBuffer = replicate (nat (bs sdiv 2)) (Fin 0)\<rparr>)"

text \<open>
  Step 1 of \<open>detectPitch\<close>, inner loop: \<open>yinBuffer[tau] += delta * delta\<close> for \<open>j\<close> and
  the \<open>k\<close> indices after it.  \<open>frame\<close> is the array the argument \<open>buffer\<close> points to; reading it or
  the vector beyond their ends is the error \<open>OutOfBounds\<close>.
\<close>

fun difference_inner :: "fl list \<Rightarrow> nat \<Rightarrow> nat \<Rightarrow> nat \<Rightarrow> fl list \<Rightarrow> error + fl list" where
  "difference_inner frame tau j 0 yin = Inr yin"
| "difference_inner frame tau j (Suc k) yin =
     (if j < length frame \<and> j + tau < length frame \<and> tau < length yin
      then let delta = fsub (frame ! j) (frame ! (j + tau))
           in difference_inner frame tau (Suc j) k
                (yin[tau := fadd (yin ! tau) (fmul delta delta)])
      else Inl OutOfBounds)"

text \<open>Step 1, outer loop, for \<open>tau\<close> and the \<open>k\<close> lags after it.\<close>

fun difference_outer :: "fl list \<Rightarrow> nat \<Rightarrow> nat \<Rightarrow> fl list \<Rightarrow> error + fl list" where
  "difference_outer frame tau 0 yin = Inr yin"
| "difference_outer frame tau (Suc k) yin =
     (if tau < length yin
      then case difference_inner frame tau 0 (length yin) (yin[tau := Fin 0]) of
             Inl e \<Rightarrow> Inl e
           | Inr yin' \<Rightarrow> difference_outer frame (Suc tau) k yin'
      else Inl OutOfBounds)"

text \<open>Step 2: the cumulative mean normalised difference (\<open>acc\<close> is the variable \<open>sum\<close>), for \<open>tau\<close> and the \<open>k\<close> lags after it.\<close>

fun cumulative_mean :: "nat \<Rightarrow> nat \<Rightarrow> fl \<Rightarrow> fl list \<Rightarrow> fl list" where
  "cumulative_mean tau 0 acc yin = yin"
| "cumulative_mean tau (Suc k) acc yin =
     (let acc' = fadd acc (yin ! tau)
      in cumulative_mean (Suc tau) k acc'
           (yin[tau := fmul (yin ! tau) (fdiv (Fin (real tau)) acc')]))"

text \<open>
  Step 3: the first lag under the threshold that is below both its neighbours.  The
  conjunction of the source stops at its first false operand, so \<open>yinBuffer[tau + 1]\<close> is
  read only after the two other comparisons hold.
\<close>

fun first_minimum :: "real \<Rightarrow> fl list \<Rightarrow> nat \<Rightarrow> nat \<Rightarrow> error + fl" where
  "first_minimum sr yin tau 0 = Inr (Fin 0)"
| "first_minimum sr yin tau (Suc k) =
     (if flt (yin ! tau) (Fin (1 / 10)) \<and> flt (yin ! tau) (yin ! (tau - 1))
      then if tau + 1 < length yin
           then if flt (yin ! tau) (yin ! (tau + 1))
                then let alpha = yin ! (tau - 1); beta = yin ! tau; gamma = yin ! (tau + 1);
                         p = fdiv (fmul (Fin (1 / 2)) (fsub alpha gamma))
                                  (fadd (fsub alpha (fmul (Fin 2) beta)) gamma)
                     in Inr (fdiv (Fin sr) (fadd (Fin (real tau)) p))
                else first_minimum sr yin (Suc tau) k
           else Inl OutOfBounds
      else first_minimum sr yin (Suc tau) k)"

definition detectPitch_pd :: "PitchDetector \<Rightarrow> fl list \<Rightarrow> int \<Rightarrow> error + fl \<times> PitchDetector" where
  "detectPitch_pd pd frame size_arg =
     (let n = length (yinBuffer pd)
      in case difference_outer frame 0 n (yinBuffer pd) of
           Inl e \<Rightarrow> Inl e
         | Inr yin1 \<Rightarrow>
             if n = 0 then Inl OutOfBounds
             else let yin2 = cumulative_mean 1 (n - 1) (Fin 0) (yin1[0 := Fin 1])
                  in case first_minimum (sampleRate pd) yin2 2 (n - 2) of
                       Inl e \<Rightarrow> Inl e
                     | Inr frequency \<Rightarrow> Inr (frequency, pd\<lparr>yinBuffer := yin2\<rparr>))"

text \<open>\<open>std::log2\<close> on the special values.\<close>

fun flog2 :: "fl \<Rightarrow> fl" where
  "flog2 (Fin x) = (if x = 0 then NInf else if x < 0 then NaN else Fin (log 2 x))"
| "flog2 PInf = PInf"
| "flog2 NInf = NaN"
| "flog2 NaN = NaN"

definition midiNoteFromFrequency :: "fl \<Rightarrow> error + int" where
  "midiNoteFromFrequency frequency =
     (if fle frequency (Fin 0) then Inr (- 1)
      else roundToInt (fadd (fmul (Fin 12) (flog2 (fdiv frequency (Fin 440)))) (Fin 69)))"

section \<open>BufferedSamplerSound and BufferedSamplerVoice\<close>

record BufferedSamplerSound =
  sampleBuffer_snd :: AudioBuffer
  rootNote_snd :: int

text \<open>
  A \<open>juce::SynthesiserSound*\<close> is a \<open>BufferedSamplerSound\<close> or a sound of another class,
  which is what the \<open>dynamic_cast\<close> of the voice tells apart.
\<close>

datatype SynthesiserSound = BufferedSound BufferedSamplerSound | OtherSound

text \<open>
  The fields of the voice, and \<open>currentlyPlayingNote\<close> of its base class
  \<open>juce::SynthesiserVoice\<close>, which is \<open>-1\<close> while the voice is free:
  \<open>clearCurrentNote\<close> sets it so.  \<open>sampleBuffer\<close> points to the buffer of the sound.
\<close>

record BufferedSamplerVoice =
  level :: real
  tailOff :: real
  rootNote :: int
  sourceSamplePosition :: int
  sampleBuffer :: "AudioBuffer option"
  rate :: real
  currentlyPlayingNote :: int

definition BufferedSamplerVoice_new :: BufferedSamplerVoice where
  "BufferedSamplerVoice_new =
     \<lparr>level = 0, tailOff = 0, rootNote = 60, sourceSamplePosition = 0,
      sampleBuffer = None, rate = 1, currentlyPlayingNote = - 1\<rparr>"



definition canPlaySound :: "SynthesiserSound \<Rightarrow> bool" where
  "canPlaySound sound = (case sound of BufferedSound _ \<Rightarrow> True | OtherSound \<Rightarrow> False)"

definition startNote ::
  "int \<Rightarrow> real \<Rightarrow> SynthesiserSound \<Rightarrow> int \<Rightarrow> BufferedSamplerVoice \<Rightarrow> BufferedSamplerVoice" where
  "startNote midiNoteNumber velocity sound currentPitchWheelPosition v =
     (case sound of
        BufferedSound samplerSound \<Rightarrow>
          v\<lparr>rootNote := rootNote_snd samplerSound,
            rate := 2 powr (real_of_int (midiNoteNumber - rootNote_snd samplerSound) / 12),
            sampleBuffer := Some (sampleBuffer_snd samplerSound),
            sourceSamplePosition := 0,
            level := velocity * (15 / 100),
            tailOff := 0\<rparr>
      | OtherSound \<Rightarrow> v)"






section \<open>BufferedRecorderSamplerProcessor\<close>

datatype PluginState = Recording | Trimming | Sampling

text \<open>
  \<open>juce::Synthesiser\<close> as far as the processor prepares it: its voices and its sounds.
  Its \<open>renderNextBlock\<close>, which dispatches the MIDI events to the voices, is library
  code and a parameter \<open>R\<close> of \<open>processBlock\<close>.
\<close>

record Synthesiser =
  voices :: "BufferedSamplerVoice list"
  sounds :: "BufferedSamplerSound list"
  playbackSampleRate :: real

text \<open>A \<open>juce::MidiBuffer\<close>: the events of a block, each with its sample position.\<close>

datatype MidiMessage = NoteOn int real | NoteOff int real | OtherMessage

type_synonym MidiBuffer = "(MidiMessage \<times> int) list"

type_synonym SynthRender =
  "Synthesiser \<Rightarrow> AudioBuffer \<Rightarrow> MidiBuffer \<Rightarrow> int \<Rightarrow> int \<Rightarrow> error + Synthesiser \<times> AudioBuffer"

text \<open>
  \<open>noteHistogram\<close> is a \<open>std::map<int, int>\<close>: its entries are kept and visited in the
  order of their keys, so it is the list of its entries in that order.
  \<open>startPosition\<close> and \<open>endPosition\<close> are \<open>float\<close>s, and their products with the \<open>int\<close>
  \<open>totalSamples\<close> are products of \<open>float\<close>s, rounded before \<open>juce::roundToInt\<close> sees them.
  \<open>currentSampleRate\<close>, \<open>totalNumInputChannels\<close> and \<open>totalNumOutputChannels\<close> are what
  \<open>getSampleRate()\<close>, \<open>getTotalNumInputChannels()\<close> and \<open>getTotalNumOutputChannels()\<close>
  of the base class \<open>juce::AudioProcessor\<close> return; the host sets them.
\<close>

record BufferedRecorderSamplerProcessor =
  state :: PluginState
  circularBuffer :: CircularAudioBuffer
  trimmedBuffer :: AudioBuffer
  bufferDuration :: real
  startPosition :: fl
  endPosition :: fl
  pitchDetector :: "PitchDetector option"
  noteHistogram :: "(int \<times> int) list"
  mostCommonNote :: int
  sampler :: Synthesiser
  isPreviewActive :: bool
  previewPosition :: int
  currentSampleRate :: real
  totalNumInputChannels :: int
  totalNumOutputChannels :: int

text \<open>
  The constructor: a ring of 2 channels of \<open>48000 * 60\<close> samples and a trimmed buffer of
  the same shape.  JUCE clears neither, so \<open>g\<close> and \<open>t\<close> are what the two allocations held.
\<close>

definition BufferedRecorderSamplerProcessor_new ::
  "AudioBuffer \<Rightarrow> AudioBuffer \<Rightarrow> BufferedRecorderSamplerProcessor" where
  "BufferedRecorderSamplerProcessor_new g t =
     \<lparr>state = Recording,
      circularBuffer = CircularAudioBuffer_new g (48000 * 60),
      trimmedBuffer = t,
      bufferDuration = 60,
      startPosition = Fin 0,
      endPosition = Fin 1,
      pitchDetector = None,
      noteHistogram = [],
      mostCommonNote = 60,
      sampler = \<lparr>voices = [], sounds = [], playbackSampleRate = 0\<rparr>,
      isPreviewActive = False,
      previewPosition = 0,
      currentSampleRate = 0,
      totalNumInputChannels = 2,
      totalNumOutputChannels = 2\<rparr>"

text \<open>The memory a fresh processor can find: two channels of \<open>48000 * 60\<close> samples each.\<close>

definition initial_memory :: "AudioBuffer \<Rightarrow> bool" where
  "initial_memory g = (length g = 2 \<and> list_all (\<lambda>c. length c = 2880000) g)"

text \<open>The host announces the sample rate and the channel counts before it prepares the plugin.\<close>

definition setPlayConfigDetails ::
  "int \<Rightarrow> int \<Rightarrow> real \<Rightarrow> BufferedRecorderSamplerProcessor \<Rightarrow> BufferedRecorderSamplerProcessor" where
  "setPlayConfigDetails numIns numOuts sr p =
     p\<lparr>totalNumInputChannels := numIns, totalNumOutputChannels := numOuts, currentSampleRate := sr\<rparr>"

definition prepareToPlay ::
  "real \<Rightarrow> int \<Rightarrow> BufferedRecorderSamplerProcessor \<Rightarrow> error + BufferedRecorderSamplerProcessor" where
  "prepareToPlay sr samplesPerBlock p =
     (case PitchDetector_new sr samplesPerBlock of
        Inl e \<Rightarrow> Inl e
      | Inr pd \<Rightarrow>
          Inr (p\<lparr>pitchDetector := Some pd,
                 sampler := \<lparr>voices = replicate 16 BufferedSamplerVoice_new, sounds = [],
                             playbackSampleRate = sr\<rparr>\<rparr>))"

definition getState :: "BufferedRecorderSamplerProcessor \<Rightarrow> PluginState" where
  "getState p = state p"

definition getStartPosition :: "BufferedRecorderSamplerProcessor \<Rightarrow> fl" where
  "getStartPosition p = startPosition p"

definition getEndPosition :: "BufferedRecorderSamplerProcessor \<Rightarrow> fl" where
  "getEndPosition p = endPosition p"

definition setStartPosition ::
  "fl \<Rightarrow> BufferedRecorderSamplerProcessor \<Rightarrow> BufferedRecorderSamplerProcessor" where
  "setStartPosition pos p = p\<lparr>startPosition := pos\<rparr>"

definition setEndPosition ::
  "fl \<Rightarrow> BufferedRecorderSamplerProcessor \<Rightarrow> BufferedRecorderSamplerProcessor" where
  "setEndPosition pos p = p\<lparr>endPosition := pos\<rparr>"

definition getMostCommonNote :: "BufferedRecorderSamplerProcessor \<Rightarrow> int" where
  "getMostCommonNote p = mostCommonNote p"

definition setBufferDuration ::
  "real \<Rightarrow> BufferedRecorderSamplerProcessor \<Rightarrow> BufferedRecorderSamplerProcessor" where
  "setBufferDuration seconds p = p\<lparr>bufferDuration := seconds\<rparr>"

definition stopPreview :: "BufferedRecorderSamplerProcessor \<Rightarrow> BufferedRecorderSamplerProcessor" where
  "stopPreview p = p\<lparr>isPreviewActive := False\<rparr>"

definition enterTrimMode ::
  "BufferedRecorderSamplerProcessor \<Rightarrow> error + BufferedRecorderSamplerProcessor" where
  "enterTrimMode p =
     (case roundToInt (Fin (bufferDuration p * currentSampleRate p)) of
        Inl e \<Rightarrow> Inl e
      | Inr totalSamples \<Rightarrow>
          let startSample = 0; endSample = totalSamples
          in case newBuffer 2 (endSample - startSample) of
               Inl e \<Rightarrow> Inl e
             | Inr cleared \<Rightarrow>
                 case copyTo (circularBuffer p) cleared startSample endSample of
                   Inl e \<Rightarrow> Inl e
                 | Inr trimmed \<Rightarrow>
                     Inr (p\<lparr>state := Trimming, trimmedBuffer := trimmed,
                            startPosition := Fin 0, endPosition := Fin 1, noteHistogram := []\<rparr>))"

text \<open>The loop of \<open>enterSamplerMode\<close> over the channels of \<open>finalBuffer\<close>.\<close>

fun copy_region ::
  "AudioBuffer \<Rightarrow> int \<Rightarrow> int \<Rightarrow> nat \<Rightarrow> nat \<Rightarrow> AudioBuffer \<Rightarrow> error + AudioBuffer" where
  "copy_region src srcStart n ch 0 dest = Inr dest"
| "copy_region src srcStart n ch (Suc m) dest =
     (case copyFrom dest (int ch) 0 src (int ch) srcStart n of
        Inl e \<Rightarrow> Inl e
      | Inr dest' \<Rightarrow> copy_region src srcStart n (Suc ch) m dest')"

definition enterSamplerMode ::
  "BufferedRecorderSamplerProcessor \<Rightarrow> error + BufferedRecorderSamplerProcessor" where
  "enterSamplerMode p =
     (let totalSamples = getNumSamples (trimmedBuffer p)
      in case roundToInt (fmulf (startPosition p) (float_of_int totalSamples)) of
           Inl e \<Rightarrow> Inl e
         | Inr startSample \<Rightarrow>
         case roundToInt (fmulf (endPosition p) (float_of_int totalSamples)) of
           Inl e \<Rightarrow> Inl e
         | Inr endSample \<Rightarrow>
             let lengthInSamples = endSample - startSample
             in case newBuffer (getNumChannels (trimmedBuffer p)) lengthInSamples of
                  Inl e \<Rightarrow> Inl e
                | Inr fresh \<Rightarrow>
                    case copy_region (trimmedBuffer p) startSample lengthInSamples
                           0 (length fresh) fresh of
                      Inl e \<Rightarrow> Inl e
                    | Inr finalBuffer \<Rightarrow>
                        Inr (p\<lparr>sampler := (sampler p)\<lparr>sounds :=
                                 [\<lparr>sampleBuffer_snd = finalBuffer,
                                   rootNote_snd = mostCommonNote p\<rparr>]\<rparr>,
                               state := Sampling\<rparr>))"

text \<open>
  Insertion into and counting in the histogram: \<open>noteHistogram[midiNote] = 1\<close> when the
  key is absent, \<open>noteHistogram[midiNote]++\<close> when it is there.
\<close>

fun hist_increment :: "int \<Rightarrow> (int \<times> int) list \<Rightarrow> (int \<times> int) list" where
  "hist_increment k [] = [(k, 1)]"
| "hist_increment k ((k', v) # h) =
     (if k = k' then (k', v + 1) # h
      else if k < k' then (k, 1) # (k', v) # h
      else (k', v) # hist_increment k h)"

text \<open>The scan for the most common note, over the entries in the order of the map.\<close>

fun most_common :: "(int \<times> int) list \<Rightarrow> int \<Rightarrow> int \<Rightarrow> int" where
  "most_common [] maxCount note = note"
| "most_common ((k, v) # h) maxCount note =
     (if v > maxCount then most_common h v k else most_common h maxCount note)"

text \<open>The copy of one chunk into \<open>chunkData\<close>, from sample \<open>base\<close> of channel 0.\<close>

fun read_chunk :: "AudioBuffer \<Rightarrow> int \<Rightarrow> nat \<Rightarrow> nat \<Rightarrow> fl list \<Rightarrow> error + fl list" where
  "read_chunk tb base i 0 chunkData = Inr chunkData"
| "read_chunk tb base i (Suc k) chunkData =
     (case getSample tb 0 (base + int i) of
        Inl e \<Rightarrow> Inl e
      | Inr v \<Rightarrow> read_chunk tb base (Suc i) k (chunkData[i := v]))"

definition chunkSize :: nat where
  "chunkSize = 2048"

text \<open>The loop over the chunks: \<open>chunk\<close> is next and \<open>k\<close> chunks remain.\<close>

fun analyse_chunks ::
  "AudioBuffer \<Rightarrow> int \<Rightarrow> nat \<Rightarrow> nat \<Rightarrow> PitchDetector option \<Rightarrow> (int \<times> int) list
     \<Rightarrow> error + PitchDetector option \<times> (int \<times> int) list" where
  "analyse_chunks tb startSample chunk 0 pdo h = Inr (pdo, h)"
| "analyse_chunks tb startSample chunk (Suc k) pdo h =
     (case read_chunk tb (startSample + int chunk * int chunkSize) 0 chunkSize
             (replicate chunkSize (Fin 0)) of
        Inl e \<Rightarrow> Inl e
      | Inr chunkData \<Rightarrow>
        case pdo of
          None \<Rightarrow> Inl NullPointer
        | Some pd \<Rightarrow>
          case detectPitch_pd pd chunkData (int chunkSize) of
            Inl e \<Rightarrow> Inl e
          | Inr (frequency, pd') \<Rightarrow>
            case midiNoteFromFrequency frequency of
              Inl e \<Rightarrow> Inl e
            | Inr midiNote \<Rightarrow>
                analyse_chunks tb startSample (Suc chunk) k (Some pd')
                  (if 0 \<le> midiNote \<and> midiNote < 128 then hist_increment midiNote h else h))"

definition detectPitch ::
  "BufferedRecorderSamplerProcessor \<Rightarrow> error + BufferedRecorderSamplerProcessor" where
  "detectPitch p =
     (if getNumSamples (trimmedBuffer p) = 0 then Inr p
      else
        let totalSamples = getNumSamples (trimmedBuffer p)
        in case roundToInt (fmulf (startPosition p) (float_of_int totalSamples)) of
             Inl e \<Rightarrow> Inl e
           | Inr startSample \<Rightarrow>
           case roundToInt (fmulf (endPosition p) (float_of_int totalSamples)) of
             Inl e \<Rightarrow> Inl e
           | Inr endSample \<Rightarrow>
               let lengthInSamples = endSample - startSample;
                   numChunks = lengthInSamples sdiv int chunkSize
               in case analyse_chunks (trimmedBuffer p) startSample 0 (nat numChunks)
                         (pitchDetector p) (noteHistogram p) of
                    Inl e \<Rightarrow> Inl e
                  | Inr (pdo, h') \<Rightarrow>
                      Inr (p\<lparr>pitchDetector := pdo, noteHistogram := h',
                             mostCommonNote := most_common h' 0 (mostCommonNote p)\<rparr>))"

definition previewTrimmedSample ::
  "BufferedRecorderSamplerProcessor \<Rightarrow> error + BufferedRecorderSamplerProcessor" where
  "previewTrimmedSample p =
     (let totalSamples = getNumSamples (trimmedBuffer p)
      in case roundToInt (fmulf (startPosition p) (float_of_int totalSamples)) of
           Inl e \<Rightarrow> Inl e
         | Inr startSample \<Rightarrow>
         case roundToInt (fmulf (endPosition p) (float_of_int totalSamples)) of
           Inl e \<Rightarrow> Inl e
         | Inr endSample \<Rightarrow>
             case newBuffer 1 (endSample - startSample) of
               Inl e \<Rightarrow> Inl e
             | Inr fresh \<Rightarrow>
                 case copyFrom fresh 0 0 (trimmedBuffer p) 0 startSample (endSample - startSample) of
                   Inl e \<Rightarrow> Inl e
                 | Inr tempBuffer \<Rightarrow>
                     detectPitch (p\<lparr>isPreviewActive := True, previewPosition := startSample\<rparr>))"

text \<open>The loop of \<open>processBlock\<close> that clears the output channels without input.\<close>

fun clear_outputs :: "int \<Rightarrow> int \<Rightarrow> nat \<Rightarrow> AudioBuffer \<Rightarrow> error + AudioBuffer" where
  "clear_outputs numSamples i 0 b = Inr b"
| "clear_outputs numSamples i (Suc m) b =
     (case clearRegion b i 0 numSamples of
        Inl e \<Rightarrow> Inl e
      | Inr b' \<Rightarrow> clear_outputs numSamples (i + 1) m b')"

text \<open>The loop of \<open>processBlock\<close> that mixes the preview into the block.\<close>

fun mix_region :: "AudioBuffer \<Rightarrow> int \<Rightarrow> nat \<Rightarrow> nat \<Rightarrow> AudioBuffer \<Rightarrow> error + AudioBuffer" where
  "mix_region src n ch 0 dest = Inr dest"
| "mix_region src n ch (Suc m) dest =
     (case addFrom dest (int ch) 0 src (int ch) 0 n of
        Inl e \<Rightarrow> Inl e
      | Inr dest' \<Rightarrow> mix_region src n (Suc ch) m dest')"

definition processBlock ::
  "SynthRender \<Rightarrow> BufferedRecorderSamplerProcessor \<Rightarrow> AudioBuffer \<Rightarrow> MidiBuffer
     \<Rightarrow> error + BufferedRecorderSamplerProcessor \<times> AudioBuffer" where
  "processBlock R p block midiMessages =
     (let numInputChannels = totalNumInputChannels p;
          numOutputChannels = totalNumOutputChannels p;
          numSamples = getNumSamples block
      in case clear_outputs numSamples numInputChannels
                (nat (numOutputChannels - numInputChannels)) block of
           Inl e \<Rightarrow> Inl e
         | Inr block1 \<Rightarrow>
           case (if state p = Recording
                 then case write_rb (circularBuffer p) block1 of
                        Inl e \<Rightarrow> Inl e
                      | Inr rb \<Rightarrow> Inr (p\<lparr>circularBuffer := rb\<rparr>)
                 else Inr p) of
             Inl e \<Rightarrow> Inl e
           | Inr p1 \<Rightarrow>
               if state p1 = Recording \<or> state p1 = Trimming
               then
                 if state p1 = Trimming \<and> isPreviewActive p1
                 then
                   case newBuffer (getNumChannels block1) (getNumSamples block1) of
                     Inl e \<Rightarrow> Inl e
                   | Inr cleared \<Rightarrow>
                       let samplesToCopy =
                             min numSamples (getNumSamples (trimmedBuffer p1) - previewPosition p1)
                       in if samplesToCopy > 0
                          then
                            case copy_region (trimmedBuffer p1) (previewPosition p1) samplesToCopy
                                   0 (length cleared) cleared of
                              Inl e \<Rightarrow> Inl e
                            | Inr previewBuffer \<Rightarrow>
                                let pos = previewPosition p1 + samplesToCopy;
                                    pos' = (if pos \<ge> getNumSamples (trimmedBuffer p1) then 0 else pos)
                                in case mix_region previewBuffer samplesToCopy
                                          0 (length block1) block1 of
                                     Inl e \<Rightarrow> Inl e
                                   | Inr block2 \<Rightarrow> Inr (p1\<lparr>previewPosition := pos'\<rparr>, block2)
                          else Inr (p1, block1)
                 else Inr (p1, block1)
               else
                 case R (sampler p1) (clear block1) midiMessages 0 numSamples of
                   Inl e \<Rightarrow> Inl e
                 | Inr (synth, block2) \<Rightarrow> Inr (p1\<lparr>sampler := synth\<rparr>, block2))"

section \<open>BufferedRecorderSamplerEditor\<close>

datatype Button =
  Buffer10sButton | Buffer30sButton | Buffer60sButton | PreviewButton | DoneButton | OtherButton

datatype Slider = StartSlider | EndSlider | OtherSlider

text \<open>
  The two handlers of the editor, on the state of the processor they act upon; the
  visibility of the controls and the repainting are left out.
\<close>

definition buttonClicked ::
  "Button \<Rightarrow> BufferedRecorderSamplerProcessor \<Rightarrow> error + BufferedRecorderSamplerProcessor" where
  "buttonClicked button p =
     (case button of
        Buffer10sButton \<Rightarrow> enterTrimMode (setBufferDuration 10 p)
      | Buffer30sButton \<Rightarrow> enterTrimMode (setBufferDuration 30 p)
      | Buffer60sButton \<Rightarrow> enterTrimMode (setBufferDuration 60 p)
      | PreviewButton \<Rightarrow> previewTrimmedSample p
      | DoneButton \<Rightarrow> enterSamplerMode p
      | OtherButton \<Rightarrow> Inr p)"

text \<open>
  \<open>sliderValueChanged\<close> for the slider that moved and the value \<open>slider->getValue()\<close>
  it reports, a \<open>double\<close> that the handler casts to \<open>float\<close>; \<open>0.01f\<close> is
  \<open>float32 (1 / 100)\<close>.  The handler also writes the adjusted bound back to the slider,
  which makes the slider report once more: a further call of the handler.
\<close>

definition sliderValueChanged ::
  "Slider \<Rightarrow> real \<Rightarrow> BufferedRecorderSamplerProcessor \<Rightarrow> BufferedRecorderSamplerProcessor" where
  "sliderValueChanged slider valueOfSlider p =
     (case slider of
        StartSlider \<Rightarrow>
          let p1 = setStartPosition (float32 valueOfSlider) p
          in if fle (getEndPosition p1) (getStartPosition p1)
             then setStartPosition (fsubf (getEndPosition p1) (float32 (1 / 100))) p1 else p1
      | EndSlider \<Rightarrow>
          let p1 = setEndPosition (float32 valueOfSlider) p
          in if fle (getEndPosition p1) (getStartPosition p1)
             then setEndPosition (faddf (getStartPosition p1) (float32 (1 / 100))) p1 else p1
      | OtherSlider \<Rightarrow> p)"

section \<open>Sequences of calls\<close>

text \<open>The calls the host and the editor make on a processor, and a run of them in order.\<close>

datatype action =
    SetPlayConfigDetails int int real
  | PrepareToPlay real int
  | ProcessBlock AudioBuffer MidiBuffer
  | SetBufferDuration real
  | EnterTrimMode
  | EnterSamplerMode
  | SetStartPosition fl
  | SetEndPosition fl
  | PreviewTrimmedSample
  | StopPreview
  | DetectPitch
  | ButtonClicked Button
  | SliderValueChanged Slider real

fun step ::
  "SynthRender \<Rightarrow> action \<Rightarrow> BufferedRecorderSamplerProcessor
     \<Rightarrow> error + BufferedRecorderSamplerProcessor" where
  "step R (SetPlayConfigDetails i out sr) p = Inr (setPlayConfigDetails i out sr p)"
| "step R (PrepareToPlay sr n) p = prepareToPlay sr n p"
| "step R (ProcessBlock b m) p =
     (case processBlock R p b m of Inl e \<Rightarrow> Inl e | Inr (p', _) \<Rightarrow> Inr p')"
| "step R (SetBufferDuration s) p = Inr (setBufferDuration s p)"
| "step R EnterTrimMode p = enterTrimMode p"
| "step R EnterSamplerMode p = enterSamplerMode p"
| "step R (SetStartPosition x) p = Inr (setStartPosition x p)"
| "step R (SetEndPosition x) p = Inr (setEndPosition x p)"
| "step R PreviewTrimmedSample p = previewTrimmedSample p"
| "step R StopPreview p = Inr (stopPreview p)"
| "step R DetectPitch p = detectPitch p"
| "step R (ButtonClicked b) p = buttonClicked b p"
| "step R (SliderValueChanged s x) p = Inr (sliderValueChanged s x p)"

fun run ::
  "SynthRender \<Rightarrow> BufferedRecorderSamplerProcessor \<Rightarrow> action list
     \<Rightarrow> error + BufferedRecorderSamplerProcessor" where
  "run R p [] = Inr p"
| "run R p (a # as) = (case step R a p of Inl e \<Rightarrow> Inl e | Inr p' \<Rightarrow> run R p' as)"

section \<open>Notions of the specification\<close>

text \<open>
  The functions below are not in the source.  \<open>ring_put\<close> and \<open>ring_get\<close> say what the two
  inner loops of the ring do to one channel; \<open>window n p c h\<close> says that channel \<open>c\<close> of a
  ring of \<open>n\<close> samples with write cursor \<open>p\<close> holds the last \<open>n\<close> samples of the stream \<open>h\<close>,
  the oldest one at the cursor; \<open>write_all\<close> is a sequence of calls of \<open>write\<close> and \<open>stream\<close>
  the samples these calls hand over for one channel.
\<close>

fun ring_put :: "nat \<Rightarrow> nat \<Rightarrow> 'a list \<Rightarrow> 'a list \<Rightarrow> 'a list" where
  "ring_put n p [] c = c"
| "ring_put n p (x # xs) c = ring_put n (if n \<le> p + 1 then 0 else p + 1) xs (c[p := x])"

fun ring_get :: "nat \<Rightarrow> nat \<Rightarrow> nat \<Rightarrow> 'a list \<Rightarrow> 'a list" where
  "ring_get n p 0 c = []"
| "ring_get n p (Suc k) c = c ! p # ring_get n (if n \<le> p + 1 then 0 else p + 1) k c"

definition window :: "nat \<Rightarrow> nat \<Rightarrow> 'a list \<Rightarrow> 'a list \<Rightarrow> bool" where
  "window n p c h = (length c = n \<and> p < n \<and> n \<le> length h \<and>
     (\<forall>k<n. c ! ((p + k) mod n) = h ! (length h - n + k)))"

definition ring_ok :: "CircularAudioBuffer \<Rightarrow> bool" where
  "ring_ok rb = (0 < size_rb rb \<and> 0 \<le> writePos rb \<and> writePos rb < size_rb rb \<and>
     list_all (\<lambda>c. length c = nat (size_rb rb)) (buffer rb))"

fun write_all :: "CircularAudioBuffer \<Rightarrow> AudioBuffer list \<Rightarrow> error + CircularAudioBuffer" where
  "write_all rb [] = Inr rb"
| "write_all rb (b # bs) =
     (case write_rb rb b of Inl e \<Rightarrow> Inl e | Inr rb' \<Rightarrow> write_all rb' bs)"

definition stream :: "nat \<Rightarrow> AudioBuffer list \<Rightarrow> fl list" where
  "stream c bs = concat (map (\<lambda>b. b ! c) bs)"

text \<open>
  A sequence of slider movements, each the slider and the value it reports, and the
  trim regions the sliders produce: two finite bounds in order, the start from \<open>-0.02\<close>
  to \<open>1\<close> and the end from \<open>0\<close> to \<open>1.02\<close> (a slider reports values from \<open>0\<close> to \<open>1\<close>, and
  the handler moves a bound up to \<open>0.01\<close> beyond them).
\<close>

fun slider_run ::
  "BufferedRecorderSamplerProcessor \<Rightarrow> (Slider \<times> real) list \<Rightarrow> BufferedRecorderSamplerProcessor" where
  "slider_run p [] = p"
| "slider_run p ((s, x) # evs) = slider_run (sliderValueChanged s x p) evs"

definition trim_region_ok :: "BufferedRecorderSamplerProcessor \<Rightarrow> bool" where
  "trim_region_ok p =
     (case (startPosition p, endPosition p) of
        (Fin s, Fin e) \<Rightarrow> s < e \<and> - (1 / 50) \<le> s \<and> s \<le> 1 \<and> 0 \<le> e \<and> e \<le> 51 / 50
      | _ \<Rightarrow> False)"


text \<open>
  The difference function of the pitch detector as a value: \<open>difference frame n tau\<close> is
  the sum over \<open>j < n\<close> of the squares of \<open>frame[j] - frame[j + tau]\<close>, added up in the
  order of the loop.
\<close>

fun dsum :: "fl list \<Rightarrow> nat \<Rightarrow> nat \<Rightarrow> nat \<Rightarrow> fl \<Rightarrow> fl" where
  "dsum frame tau j 0 a = a"
| "dsum frame tau j (Suc k) a =
     dsum frame tau (Suc j) k
       (fadd a (fmul (fsub (frame ! j) (frame ! (j + tau))) (fsub (frame ! j) (frame ! (j + tau)))))"

definition difference :: "fl list \<Rightarrow> nat \<Rightarrow> nat \<Rightarrow> fl" where
  "difference frame n tau = dsum frame tau 0 n (Fin 0)"

text \<open>
  The analysis of the trim region in the words of the specification.  \<open>chunk_at\<close> is a
  chunk of channel 0, \<open>note_of_chunk\<close> the note the detector gives it, \<open>record_note\<close> the
  guarded increment of the histogram.  \<open>hist_ok\<close> holds of a \<open>std::map\<close> that the
  processor has filled: ascending keys, positive counts.  \<open>count_of\<close> is the count of a
  note (\<open>0\<close> when absent), and \<open>most_common_of h n\<close> says that \<open>n\<close> is a key of \<open>h\<close> of
  maximal count and the lowest such key.
\<close>

definition record_note :: "int \<Rightarrow> (int \<times> int) list \<Rightarrow> (int \<times> int) list" where
  "record_note midiNote h = (if 0 \<le> midiNote \<and> midiNote < 128 then hist_increment midiNote h else h)"

definition note_of_chunk :: "PitchDetector \<Rightarrow> fl list \<Rightarrow> error + int" where
  "note_of_chunk pd chunk =
     (case detectPitch_pd pd chunk (int chunkSize) of
        Inl e \<Rightarrow> Inl e
      | Inr (frequency, _) \<Rightarrow> midiNoteFromFrequency frequency)"

definition chunk_at :: "AudioBuffer \<Rightarrow> int \<Rightarrow> nat \<Rightarrow> fl list" where
  "chunk_at tb startSample c =
     take chunkSize (drop (nat (startSample + int c * int chunkSize)) (tb ! 0))"

definition hist_ok :: "(int \<times> int) list \<Rightarrow> bool" where
  "hist_ok h = (sorted_wrt (<) (map fst h) \<and> list_all (\<lambda>(k, v). 0 < v) h)"

definition count_of :: "(int \<times> int) list \<Rightarrow> int \<Rightarrow> int" where
  "count_of h k = (case map_of h k of None \<Rightarrow> 0 | Some v \<Rightarrow> v)"

definition most_common_of :: "(int \<times> int) list \<Rightarrow> int \<Rightarrow> bool" where
  "most_common_of h note =
     (\<exists>count. (note, count) \<in> set h \<and>
        list_all (\<lambda>(k, v). v \<le> count \<and> (v = count \<longrightarrow> note \<le> k)) h)"

text \<open>
  An example for the analysis: a detector for blocks of \<open>8\<close> samples at \<open>836\<close> Hz, and
  a trimmed buffer of two chunks, the first one starting with seven samples of period
  \<open>2\<close> (a lag of \<open>1.9\<close> after interpolation: \<open>440\<close> Hz), the second one silent.
\<close>

definition w_chunk :: "fl list" where
  "w_chunk = Fin 1 # Fin (- 1) # Fin 1 # Fin (- 1) # Fin 1 # Fin (- 1) # Fin 1 # replicate 2041 (Fin 0)"

definition w_processor :: BufferedRecorderSamplerProcessor where
  "w_processor = (BufferedRecorderSamplerProcessor_new [] [])
     \<lparr>trimmedBuffer := [w_chunk @ replicate 2048 (Fin 0)],
      pitchDetector := Some \<lparr>sampleRate = 836, bufferSize = 8, yinBuffer = replicate 4 (Fin 0)\<rparr>,
      noteHistogram := [(60, 1)]\<rparr>"

definition w_result :: BufferedRecorderSamplerProcessor where
  "w_result = w_processor
     \<lparr>pitchDetector := Some \<lparr>sampleRate = 836, bufferSize = 8, yinBuffer = [Fin 1, NaN, NaN, NaN]\<rparr>,
      noteHistogram := [(60, 1), (69, 1)],
      mostCommonNote := 60\<rparr>"

text \<open>
  \<open>notes_in_range\<close>: the most common note and every key of the histogram are MIDI
  notes.  \<open>silent_memory\<close> is fresh memory of the shape of the two big buffers that
  holds zeros, and \<open>no_synth\<close> a synthesiser that renders nothing.
\<close>

definition notes_in_range :: "BufferedRecorderSamplerProcessor \<Rightarrow> bool" where
  "notes_in_range p =
     (0 \<le> mostCommonNote p \<and> mostCommonNote p < 128 \<and>
      list_all (\<lambda>(k, v). 0 \<le> k \<and> k < 128) (noteHistogram p))"

definition silent_memory :: AudioBuffer where
  "silent_memory = [replicate 2880000 (Fin 0), replicate 2880000 (Fin 0)]"

definition no_synth :: SynthRender where
  "no_synth synth block midi startSample numSamples = Inr (synth, block)"

text \<open>
  A recording that fills the ring of \<open>48000 * 60\<close> samples exactly once: \<open>5624\<close> silent
  blocks of \<open>512\<close> samples on both channels, then one block of ones.
\<close>

definition zero_block :: AudioBuffer where
  "zero_block = [replicate 512 (Fin 0), replicate 512 (Fin 0)]"

definition one_block :: AudioBuffer where
  "one_block = [replicate 512 (Fin 1), replicate 512 (Fin 1)]"

definition recorded_blocks :: "AudioBuffer list" where
  "recorded_blocks = replicate 5624 zero_block @ [one_block]"

text \<open>
  A recording of the same length for the preview: its first block holds \<open>352\<close> zeros and
  then \<open>160\<close> ones on both channels, and \<open>5624\<close> silent blocks follow.
\<close>

definition marked_block :: AudioBuffer where
  "marked_block = [replicate 352 (Fin 0) @ replicate 160 (Fin 1),
                   replicate 352 (Fin 0) @ replicate 160 (Fin 1)]"

definition marked_recording :: "AudioBuffer list" where
  "marked_recording = marked_block # replicate 5624 zero_block"

section \<open>Rounding to binary32\<close>

lemma pow2_powr: "pow2 e = 2 powr (real_of_int e)"
proof (cases "0 \<le> e")
  case True
  then show ?thesis by (simp add: pow2_def powr_realpow [symmetric])
next
  case False
  then have "2 powr (real_of_int e) = 2 powr (- real (nat (- e)))" by simp
  also have "\<dots> = 1 / 2 ^ nat (- e)"
    by (simp only: powr_minus powr_realpow [OF zero_less_numeral] inverse_eq_divide)
  finally show ?thesis using False by (simp add: pow2_def)
qed

lemma pow2_pos: "0 < pow2 e" by (simp add: pow2_powr)

lemma pow2_le_iff: "pow2 a \<le> pow2 b \<longleftrightarrow> a \<le> b" by (simp add: pow2_powr)

lemma pow2_less_iff: "pow2 a < pow2 b \<longleftrightarrow> a < b" by (simp add: pow2_powr)

lemma pow2_add: "pow2 (a + b) = pow2 a * pow2 b" by (simp add: pow2_powr powr_add)

lemma length_filter_upto:
  "length (filter (\<lambda>i. i \<le> e) [a..b]) = nat (min e b - a + 1)"
proof (induction a b rule: upto.induct)
  case (1 i j)
  show ?case
  proof (cases "i \<le> j")
    case True
    then have u: "[i..j] = i # [i + 1..j]" by (simp add: upto_rec1)
    show ?thesis using 1 [OF True] True unfolding u by (auto simp: min_def)
  next
    case False
    then show ?thesis by simp
  qed
qed

lemma binade_eq:
  assumes "pow2 e \<le> \<bar>x\<bar>" "\<bar>x\<bar> < pow2 (e + 1)" "- 126 \<le> e" "e \<le> 127"
  shows "binade x = e"
proof -
  have "pow2 i \<le> \<bar>x\<bar> \<longleftrightarrow> i \<le> e" for i
  proof
    assume "pow2 i \<le> \<bar>x\<bar>"
    then have "pow2 i < pow2 (e + 1)" using assms(2) by simp
    then show "i \<le> e" by (simp add: pow2_less_iff)
  next
    assume "i \<le> e"
    then have "pow2 i \<le> pow2 e" by (simp add: pow2_le_iff)
    then show "pow2 i \<le> \<bar>x\<bar>" using assms(1) by simp
  qed
  then have "filter (\<lambda>i. pow2 i \<le> \<bar>x\<bar>) [- 125..127] = filter (\<lambda>i. i \<le> e) [- 125..127]"
    by (simp del: upto_rec_numeral)
  then show ?thesis using assms(3,4)
    by (simp add: binade_def length_filter_upto del: upto_rec_numeral)
qed

lemma length_filter_mono:
  "(\<And>x. x \<in> set xs \<Longrightarrow> P x \<Longrightarrow> Q x) \<Longrightarrow> length (filter P xs) \<le> length (filter Q xs)"
  by (induction xs) auto

lemma binade_le:
  assumes "\<bar>x\<bar> < pow2 (e + 1)" "- 126 \<le> e"
  shows "binade x \<le> e"
proof -
  have "pow2 i \<le> \<bar>x\<bar> \<Longrightarrow> i \<le> e" for i
  proof -
    assume "pow2 i \<le> \<bar>x\<bar>"
    then have "pow2 i < pow2 (e + 1)" using assms(1) by simp
    then show "i \<le> e" by (simp add: pow2_less_iff)
  qed
  then have "length (filter (\<lambda>i. pow2 i \<le> \<bar>x\<bar>) [- 125..127])
      \<le> length (filter (\<lambda>i. i \<le> e) [- 125..127])"
    by (rule length_filter_mono)
  then show ?thesis using assms(2)
    by (simp add: binade_def length_filter_upto min_def del: upto_rec_numeral split: if_splits)
qed

lemma binade_ge: "- 126 \<le> binade x" by (simp add: binade_def del: upto_rec_numeral)

lemma roundHalfEven_cases:
  "roundHalfEven z = \<lfloor>z\<rfloor> \<and> z - of_int \<lfloor>z\<rfloor> \<le> 1 / 2 \<or>
   roundHalfEven z = \<lfloor>z\<rfloor> + 1 \<and> 1 / 2 \<le> z - of_int \<lfloor>z\<rfloor>"
  unfolding roundHalfEven_def Let_def by (cases "z - of_int \<lfloor>z\<rfloor> < 1 / 2") auto

lemma roundHalfEven_err: "\<bar>real_of_int (roundHalfEven z) - z\<bar> \<le> 1 / 2"
proof -
  have f: "of_int \<lfloor>z\<rfloor> \<le> z" "z < of_int \<lfloor>z\<rfloor> + 1" by linarith+
  from roundHalfEven_cases [of z] show ?thesis
  proof
    assume "roundHalfEven z = \<lfloor>z\<rfloor> \<and> z - of_int \<lfloor>z\<rfloor> \<le> 1 / 2"
    then show ?thesis using f by simp
  next
    assume "roundHalfEven z = \<lfloor>z\<rfloor> + 1 \<and> 1 / 2 \<le> z - of_int \<lfloor>z\<rfloor>"
    then show ?thesis using f by simp
  qed
qed

lemma roundHalfEven_int: "roundHalfEven (of_int n) = n"
  by (simp add: roundHalfEven_def)

lemma roundHalfEven_le:
  assumes "z \<le> of_int n"
  shows "roundHalfEven z \<le> n"
proof -
  have fl: "\<lfloor>z\<rfloor> \<le> n" using assms by (simp add: floor_le_iff)
  from roundHalfEven_cases [of z] show ?thesis
  proof
    assume "roundHalfEven z = \<lfloor>z\<rfloor> \<and> z - of_int \<lfloor>z\<rfloor> \<le> 1 / 2"
    then show ?thesis using fl by simp
  next
    assume a: "roundHalfEven z = \<lfloor>z\<rfloor> + 1 \<and> 1 / 2 \<le> z - of_int \<lfloor>z\<rfloor>"
    have "\<lfloor>z\<rfloor> \<noteq> n"
    proof
      assume "\<lfloor>z\<rfloor> = n"
      then have "z - of_int \<lfloor>z\<rfloor> \<le> 0" using assms by simp
      then show False using a by simp
    qed
    then show ?thesis using fl a by simp
  qed
qed

lemma roundHalfEven_ge:
  assumes "of_int n \<le> z"
  shows "n \<le> roundHalfEven z"
proof -
  have "n \<le> \<lfloor>z\<rfloor>" using assms by (simp add: le_floor_iff)
  then show ?thesis using roundHalfEven_cases [of z] by auto
qed

lemma float32_binade:
  assumes "pow2 e \<le> \<bar>x\<bar>" "\<bar>x\<bar> < pow2 (e + 1)" "- 126 \<le> e" "e \<le> 127"
  shows "float32 x =
     (let u = pow2 (e - 23);
          r = of_int (roundHalfEven (x / u)) * u
      in if pow2 128 \<le> \<bar>r\<bar> then (if 0 < x then PInf else NInf) else Fin r)"
  by (simp add: float32_def binade_eq [OF assms])

lemma float32_zero: "float32 0 = Fin 0"
proof -
  have "\<not> pow2 128 \<le> 0" using pow2_pos [of 128] by simp
  then show ?thesis using roundHalfEven_int [of 0] by (simp add: float32_def Let_def)
qed

lemma float32_small:
  assumes "\<bar>x\<bar> \<le> 2"
  shows "\<exists>y. float32 x = Fin y \<and> \<bar>y - x\<bar> \<le> 1 / 2 ^ 23"
proof -
  define u where "u = pow2 (binade x - 23)"
  define r where "r = of_int (roundHalfEven (x / u)) * u"
  have "\<bar>x\<bar> < pow2 (1 + 1)" using assms by (simp add: pow2_def)
  then have "binade x \<le> 1" by (rule binade_le) simp
  then have "u \<le> pow2 (- 22)" unfolding u_def by (simp add: pow2_le_iff)
  then have u: "0 < u" "u \<le> 1 / 2 ^ 22" unfolding u_def by (simp_all add: pow2_pos) (simp add: pow2_def)
  have "r - x = (of_int (roundHalfEven (x / u)) - x / u) * u"
    using u(1) by (simp add: r_def left_diff_distrib)
  then have "\<bar>r - x\<bar> = \<bar>of_int (roundHalfEven (x / u)) - x / u\<bar> * u"
    using u(1) by (simp add: abs_mult)
  also have "\<dots> \<le> 1 / 2 * u"
    using roundHalfEven_err [of "x / u"] u(1) by (intro mult_right_mono) simp_all
  finally have e: "\<bar>r - x\<bar> \<le> 1 / 2 ^ 23" using u(2) by simp
  moreover have "1 / 2 ^ 23 \<le> (1::real)" by simp
  ultimately have "\<bar>r\<bar> \<le> 3" using assms by linarith
  then have "\<not> pow2 128 \<le> \<bar>r\<bar>" by (simp add: pow2_def)
  then have "float32 x = Fin r" by (simp add: float32_def Let_def u_def [symmetric] r_def [symmetric])
  then show ?thesis using e by blast
qed

lemma float32_unit:
  assumes "0 \<le> x" "x \<le> 1"
  shows "\<exists>y. float32 x = Fin y \<and> 0 \<le> y \<and> y \<le> 1"
proof -
  define k where "k = nat (23 - binade x)"
  define u where "u = pow2 (binade x - 23)"
  define r where "r = of_int (roundHalfEven (x / u)) * u"
  have "\<bar>x\<bar> < pow2 (0 + 1)" using assms by (simp add: pow2_def)
  then have b: "binade x \<le> 0" by (rule binade_le) simp
  then have u: "u = 1 / 2 ^ k" by (simp add: u_def k_def pow2_def)
  have "x / u \<le> of_int (2 ^ k)" using assms by (simp add: u)
  then have "roundHalfEven (x / u) \<le> 2 ^ k" by (rule roundHalfEven_le)
  then have "real_of_int (roundHalfEven (x / u)) \<le> 2 ^ k"
    using of_int_le_iff [where ?'a = real, of "roundHalfEven (x / u)" "2 ^ k"] by simp
  then have r1: "r \<le> 1" by (simp add: r_def u field_simps)
  have "of_int 0 \<le> x / u" using assms by (simp add: u)
  then have "0 \<le> roundHalfEven (x / u)" by (rule roundHalfEven_ge)
  then have r0: "0 \<le> r" by (simp add: r_def u)
  from r0 r1 have "\<not> pow2 128 \<le> \<bar>r\<bar>" by (simp add: pow2_def)
  then have "float32 x = Fin r" by (simp add: float32_def Let_def u_def [symmetric] r_def [symmetric])
  then show ?thesis using r0 r1 by blast
qed

lemma float32_exact:
  assumes "pow2 e \<le> \<bar>x\<bar>" "\<bar>x\<bar> < pow2 (e + 1)" "- 126 \<le> e" "e \<le> 127"
    and "x = of_int m * pow2 (e - 23)"
  shows "float32 x = Fin x"
proof -
  have "x / pow2 (e - 23) = of_int m" using assms(5) pow2_pos [of "e - 23"] by simp
  then have r: "of_int (roundHalfEven (x / pow2 (e - 23))) * pow2 (e - 23) = x"
    using assms(5) by (simp add: roundHalfEven_int)
  have "pow2 (e + 1) \<le> pow2 128" using assms(4) by (simp add: pow2_le_iff)
  then have "\<not> pow2 128 \<le> \<bar>x\<bar>" using assms(2) by simp
  then show ?thesis
    unfolding float32_binade [OF assms(1-4)] Let_def r by simp
qed

lemma pow2_nat: "pow2 (int k) = 2 ^ k"
  by (simp add: pow2_def)

lemma float32_int:
  assumes "\<bar>n\<bar> < 2 ^ 24"
  shows "float32 (of_int n) = Fin (of_int n)"
proof (cases "n = 0")
  case True
  then show ?thesis by (simp add: float32_zero)
next
  case False
  define k where "k = nat \<bar>n\<bar>"
  have k: "1 \<le> k" "k < 2 ^ 24" "real k = \<bar>real_of_int n\<bar>"
    using False assms by (simp_all add: k_def nat_less_iff)
  from ex_power_ivl1 [of 2 k] k(1) obtain e where e: "2 ^ e \<le> k" "k < 2 ^ (e + 1)" by auto
  have "(2::nat) ^ e < 2 ^ 24" using e(1) k(2) by simp
  then have e24: "e < 24" by (simp only: power_strict_increasing_iff [of 2] one_less_numeral_iff semiring_norm)
  have l: "pow2 (int e) \<le> \<bar>real_of_int n\<bar>"
    unfolding pow2_nat k(3) [symmetric] using e(1)
    by (metis of_nat_le_iff of_nat_numeral of_nat_power)
  have u: "\<bar>real_of_int n\<bar> < pow2 (int e + 1)"
  proof -
    have "real k < real (2 ^ (e + 1))" using e(2) by (simp only: of_nat_less_iff)
    moreover have "pow2 (int e + 1) = 2 ^ (e + 1)" using pow2_nat [of "e + 1"] by (simp add: add.commute)
    ultimately show ?thesis unfolding k(3) by simp
  qed
  have "pow2 (int e - 23) * pow2 (int (23 - e)) = 1"
    using e24 by (simp add: pow2_add [symmetric] pow2_def)
  then have m: "real_of_int n = of_int (n * 2 ^ (23 - e)) * pow2 (int e - 23)"
    by (simp add: pow2_nat mult.assoc mult.commute)
  show ?thesis
    by (rule float32_exact [OF l u _ _ m]) (use e24 in simp_all)
qed

lemma float_of_int_exact: "\<bar>n\<bar> < 2 ^ 24 \<Longrightarrow> float_of_int n = Fin (of_int n)"
  by (simp add: float_of_int_def float32_int)

lemma float32_half: "float32 (1 / 2) = Fin (1 / 2)"
  by (rule float32_exact [of "- 1" _ "2 ^ 23"]) (simp_all add: pow2_def)

lemma float32_quarters: "float32 (1 / 4) = Fin (1 / 4)" "float32 (3 / 4) = Fin (3 / 4)"
  by (rule float32_exact [of "- 2" _ "2 ^ 23"], simp_all add: pow2_def)
     (rule float32_exact [of "- 1" _ "3 * 2 ^ 22"], simp_all add: pow2_def)

lemma fmulf_zero: "fmulf (Fin 0) (Fin r) = Fin 0"
  by (simp add: fmulf_def float32_zero)

lemma fmulf_one: "\<bar>n\<bar> < 2 ^ 24 \<Longrightarrow> fmulf (Fin 1) (Fin (of_int n)) = Fin (of_int n)"
  by (simp add: fmulf_def float32_int)

lemma position_zero:
  "\<bar>n\<bar> < 2 ^ 24 \<Longrightarrow> roundToInt (fmulf (Fin 0) (float_of_int n)) = Inr 0"
  using roundHalfEven_int [of 0] by (simp add: float_of_int_exact fmulf_zero)

lemma position_one:
  "\<bar>n\<bar> < 2 ^ 24 \<Longrightarrow> roundToInt (fmulf (Fin 1) (float_of_int n)) = Inr n"
  by (simp add: float_of_int_exact fmulf_one roundHalfEven_int)

text \<open>
  The rounding of the product decides the sample: at \<open>startPosition = 16705651 / 2^24\<close> and
  \<open>480000\<close> samples the exact product is just above \<open>477952.5\<close>, the \<open>float\<close> product is
  \<open>477952.5\<close>, and \<open>roundToInt\<close> gives \<open>477952\<close>, not \<open>477953\<close>.
\<close>

lemma position_tie:
  "roundToInt (fmulf (Fin (16705651 / 2 ^ 24)) (float_of_int 480000)) = Inr 477952"
proof -
  have "float32 (16705651 / 2 ^ 24 * 480000) =
     (let u = pow2 (18 - 23);
          r = of_int (roundHalfEven (16705651 / 2 ^ 24 * 480000 / u)) * u
      in if pow2 128 \<le> \<bar>r\<bar>
         then (if 0 < (16705651 / 2 ^ 24 * 480000 :: real) then PInf else NInf) else Fin r)"
    by (rule float32_binade) (simp_all add: pow2_def)
  then have "float32 (16705651 / 2 ^ 24 * 480000) = Fin (955905 / 2)"
    by (simp add: pow2_def roundHalfEven_def Let_def)
  moreover have "float_of_int 480000 = Fin 480000"
    using float_of_int_exact [of 480000] by simp
  ultimately show ?thesis by (simp add: fmulf_def roundHalfEven_def)
qed

section \<open>The ring buffer returns what was written\<close>

lemma length_ring_put [simp]: "length (ring_put n p xs c) = length c"
  by (induction xs arbitrary: p c) auto

lemma length_ring_get [simp]: "length (ring_get n p k c) = k"
  by (induction k arbitrary: p) auto

lemma next_pos_mod: "p < n \<Longrightarrow> (if n \<le> p + 1 then 0 else p + 1) = (p + 1) mod (n::nat)"
proof (cases "n \<le> p + 1")
  case True
  assume "p < n"
  with True have "p + 1 = n" by simp
  then show ?thesis by simp
next
  case False
  then show ?thesis by simp
qed

lemma window_step:
  assumes "window n p c h"
  shows "window n ((p + 1) mod n) (c[p := x]) (h @ [x])"
proof -
  from assms have len: "length c = n" and p: "p < n" and h: "n \<le> length h"
    and eq: "\<And>k. k < n \<Longrightarrow> c ! ((p + k) mod n) = h ! (length h - n + k)"
    by (auto simp: window_def)
  have "(c[p := x]) ! (((p + 1) mod n + k) mod n) = (h @ [x]) ! (length (h @ [x]) - n + k)"
    if k: "k < n" for k
  proof (cases "k + 1 = n")
    case True
    then have "((p + 1) mod n + k) mod n = (p + n) mod n"
      by (metis add.assoc add.commute mod_add_left_eq)
    then have "((p + 1) mod n + k) mod n = p" using p by simp
    moreover have "length (h @ [x]) - n + k = length h" using True h by simp
    ultimately show ?thesis using len p by simp
  next
    case False
    then have k1: "k + 1 < n" using k by simp
    have m: "((p + 1) mod n + k) mod n = (p + (k + 1)) mod n"
      by (metis add.assoc add.commute mod_add_left_eq)
    have ne: "(p + (k + 1)) mod n \<noteq> p"
    proof
      assume a: "(p + (k + 1)) mod n = p"
      show False
      proof (cases "p + (k + 1) < n")
        case True then show False using a by simp
      next
        case False
        then have "(p + (k + 1)) mod n = p + (k + 1) - n"
          using p k1 by (simp add: mod_if)
        then show False using a k1 False by simp
      qed
    qed
    have "(c[p := x]) ! ((p + (k + 1)) mod n) = c ! ((p + (k + 1)) mod n)"
      using ne by simp
    also have "\<dots> = h ! (length h - n + (k + 1))" using eq [OF k1] by simp
    also have "\<dots> = (h @ [x]) ! (length (h @ [x]) - n + k)"
    proof -
      have i: "length (h @ [x]) - n + k = length h - n + (k + 1)" using h k1 by simp
      have "length h - n + (k + 1) < length h" using h k1 by linarith
      then show ?thesis unfolding i by (simp add: nth_append)
    qed
    finally show ?thesis using m by simp
  qed
  then show ?thesis using len p h by (simp add: window_def)
qed

lemma window_ring_put:
  "window n p c h \<Longrightarrow> window n ((p + length xs) mod n) (ring_put n p xs c) (h @ xs)"
proof (induction xs arbitrary: p c h)
  case Nil
  then show ?case by (simp add: window_def)
next
  case (Cons x xs)
  from Cons.prems have p: "p < n" by (simp add: window_def)
  have "window n (((p + 1) mod n + length xs) mod n) (ring_put n ((p + 1) mod n) xs (c[p := x])) ((h @ [x]) @ xs)"
    by (rule Cons.IH [OF window_step [OF Cons.prems]])
  moreover have "((p + 1) mod n + length xs) mod n = (p + length (x # xs)) mod n"
    by (simp add: mod_add_left_eq)
  ultimately show ?case using next_pos_mod [OF p] by simp
qed

lemma ring_get_nth:
  "p < n \<Longrightarrow> j < k \<Longrightarrow> ring_get n p k c ! j = c ! ((p + j) mod n)"
proof (induction k arbitrary: p j)
  case 0
  then show ?case by simp
next
  case (Suc k)
  show ?case
  proof (cases j)
    case 0
    then show ?thesis using Suc.prems by simp
  next
    case (Suc j')
    have "ring_get n ((p + 1) mod n) k c ! j' = c ! (((p + 1) mod n + j') mod n)"
      using Suc.IH [of "(p + 1) mod n" j'] Suc.prems Suc by simp
    moreover have "((p + 1) mod n + j') mod n = (p + j) mod n"
      using Suc by (simp add: mod_add_left_eq)
    ultimately show ?thesis using Suc next_pos_mod [OF Suc.prems(1)] by simp
  qed
qed

lemma window_ring_get:
  assumes "window n p c h" "s + k \<le> n"
  shows "ring_get n ((p + s) mod n) k c = take k (drop (length h - n + s) h)"
proof (rule nth_equalityI)
  show "length (ring_get n ((p + s) mod n) k c) = length (take k (drop (length h - n + s) h))"
    using assms by (auto simp: window_def)
next
  fix j assume "j < length (ring_get n ((p + s) mod n) k c)"
  then have j: "j < k" by simp
  from assms have n: "0 < n" "n \<le> length h" by (auto simp: window_def)
  have "ring_get n ((p + s) mod n) k c ! j = c ! (((p + s) mod n + j) mod n)"
    using ring_get_nth [of "(p + s) mod n" n j k c] n j by simp
  also have "((p + s) mod n + j) mod n = (p + (s + j)) mod n"
    by (simp add: mod_add_left_eq add.assoc)
  also have "c ! ((p + (s + j)) mod n) = h ! (length h - n + (s + j))"
    using assms j by (simp add: window_def)
  also have "\<dots> = take k (drop (length h - n + s) h) ! j"
    using assms j n by (simp add: add.assoc)
  finally show "ring_get n ((p + s) mod n) k c ! j = take k (drop (length h - n + s) h) ! j" .
qed

lemma smod_wrap:
  "0 < n \<Longrightarrow> (let r = x smod n in if r < 0 then r + n else r) = x mod (n::int)"
proof -
  assume n: "0 < n"
  consider "x = 0" | "0 < x" | "x < 0" by linarith
  then show ?thesis
  proof cases
    case 1 then show ?thesis by simp
  next
    case 2
    then have "x smod n = x mod n" using n by (simp add: smod_int_alt_def)
    moreover have "0 \<le> x mod n" using n by simp
    ultimately show ?thesis by (simp add: Let_def)
  next
    case 3
    then have s: "x smod n = - ((- x) mod n)" using n by (simp add: smod_int_alt_def)
    have r: "0 \<le> (- x) mod n" "(- x) mod n < n" using n by simp_all
    show ?thesis
    proof (cases "x mod n = 0")
      case True
      then have "(- x) mod n = 0" by (simp add: zmod_zminus1_eq_if)
      with s True show ?thesis by (simp add: Let_def)
    next
      case False
      then have "(- x) mod n = n - x mod n" by (simp add: zmod_zminus1_eq_if)
      moreover have "0 < x mod n" using False n by (simp add: order_less_le)
      moreover have "x mod n < n" using n by simp
      ultimately show ?thesis using s by (simp add: Let_def)
    qed
  qed
qed

lemma write_samples_eq:
  assumes "ch < length buf" "ch < length src" "length (buf ! ch) = nat sz"
    "0 \<le> pos" "pos < sz" "i + k \<le> length (src ! ch)"
  shows "write_samples sz src (int ch) i k pos buf =
    Inr (buf[ch := ring_put (nat sz) (nat pos) (take k (drop i (src ! ch))) (buf ! ch)])"
  using assms
proof (induction k arbitrary: i pos buf)
  case 0
  then show ?case by simp
next
  case (Suc k)
  let ?v = "src ! ch ! i"
  let ?buf' = "buf[ch := (buf ! ch)[nat pos := ?v]]"
  let ?pos' = "if pos + 1 \<ge> sz then 0 else pos + 1"
  have g: "getSample src (int ch) (int i) = Inr ?v"
    using Suc.prems by (simp add: getSample_def getNumChannels_def)
  have s: "setSample buf (int ch) pos ?v = Inr ?buf'"
    using Suc.prems by (simp add: setSample_def getNumChannels_def)
  have p': "nat ?pos' = (if nat sz \<le> nat pos + 1 then 0 else nat pos + 1)"
    using Suc.prems by auto
  have ih: "write_samples sz src (int ch) (Suc i) k ?pos' ?buf' =
    Inr (?buf'[ch := ring_put (nat sz) (nat ?pos') (take k (drop (Suc i) (src ! ch))) (?buf' ! ch)])"
    using Suc.prems by (intro Suc.IH) auto
  have t: "take (Suc k) (drop i (src ! ch)) = ?v # take k (drop (Suc i) (src ! ch))"
    using Suc.prems by (simp add: Cons_nth_drop_Suc [symmetric])
  show ?case
    unfolding write_samples.simps g s sum.case ih t ring_put.simps p'
    using Suc.prems by simp
qed

lemma write_channels_eq:
  assumes "ch + m \<le> length buf" "ch + m \<le> length src"
    "\<forall>c<length buf. length (buf ! c) = nat sz" "0 \<le> wp" "wp < sz"
    "\<forall>c<length src. n \<le> length (src ! c)"
  shows "\<exists>buf'. write_channels sz src n wp ch m buf = Inr buf' \<and> length buf' = length buf \<and>
    (\<forall>c<length buf. buf' ! c =
       (if ch \<le> c \<and> c < ch + m
        then ring_put (nat sz) (nat wp) (take n (src ! c)) (buf ! c) else buf ! c))"
  using assms
proof (induction m arbitrary: ch buf)
  case 0
  have "\<forall>c<length buf. buf ! c =
       (if ch \<le> c \<and> c < ch + 0
        then ring_put (nat sz) (nat wp) (take n (src ! c)) (buf ! c) else buf ! c)"
    by auto
  then show ?case by (intro exI [of _ buf]) simp
next
  case (Suc m)
  let ?buf1 = "buf[ch := ring_put (nat sz) (nat wp) (take n (src ! ch)) (buf ! ch)]"
  have w: "write_samples sz src (int ch) 0 n wp buf = Inr ?buf1"
    using write_samples_eq [of ch buf src sz wp 0 n] Suc.prems by simp
  have "\<exists>buf'. write_channels sz src n wp (Suc ch) m ?buf1 = Inr buf' \<and>
      length buf' = length ?buf1 \<and>
      (\<forall>c<length ?buf1. buf' ! c =
         (if Suc ch \<le> c \<and> c < Suc ch + m
          then ring_put (nat sz) (nat wp) (take n (src ! c)) (?buf1 ! c) else ?buf1 ! c))"
    using Suc.prems by (intro Suc.IH) (auto simp: nth_list_update)
  then obtain buf' where b: "write_channels sz src n wp (Suc ch) m ?buf1 = Inr buf'"
    "length buf' = length buf"
    "\<And>c. c < length buf \<Longrightarrow> buf' ! c =
         (if Suc ch \<le> c \<and> c < Suc ch + m
          then ring_put (nat sz) (nat wp) (take n (src ! c)) (?buf1 ! c) else ?buf1 ! c)"
    by auto
  have "write_channels sz src n wp ch (Suc m) buf = Inr buf'"
    using w b(1) by simp
  moreover have "\<forall>c<length buf. buf' ! c =
       (if ch \<le> c \<and> c < ch + Suc m
        then ring_put (nat sz) (nat wp) (take n (src ! c)) (buf ! c) else buf ! c)"
  proof (intro allI impI)
    fix c assume c: "c < length buf"
    consider "c < ch" | "c = ch" | "ch < c" by linarith
    then show "buf' ! c =
       (if ch \<le> c \<and> c < ch + Suc m
        then ring_put (nat sz) (nat wp) (take n (src ! c)) (buf ! c) else buf ! c)"
    proof cases
      case 1 then show ?thesis using b(3) [OF c] by simp
    next
      case 2 then show ?thesis using b(3) [OF c] c by simp
    next
      case 3 then show ?thesis using b(3) [OF c] by simp
    qed
  qed
  ultimately show ?case using b(2) by blast
qed

lemma rect_length: "rect b \<Longrightarrow> c < length b \<Longrightarrow> length (b ! c) = nat (getNumSamples b)"
  by (auto simp: rect_def list_all_length)

lemma write_rb_ok:
  assumes ok: "ring_ok rb" and r: "rect src"
  shows "\<exists>rb'. write_rb rb src = Inr rb' \<and> ring_ok rb' \<and> size_rb rb' = size_rb rb \<and>
    length (buffer rb') = length (buffer rb) \<and>
    (\<forall>c h. c < length (buffer rb) \<longrightarrow> c < length src \<longrightarrow>
       window (nat (size_rb rb)) (nat (writePos rb)) (buffer rb ! c) h \<longrightarrow>
       window (nat (size_rb rb')) (nat (writePos rb')) (buffer rb' ! c) (h @ src ! c))"
proof -
  let ?n = "nat (getNumSamples src)"
  let ?m = "nat (min (getNumChannels src) (getNumChannels (buffer rb)))"
  let ?sz = "size_rb rb"
  let ?wp = "writePos rb"
  from ok have sz: "0 < ?sz" "0 \<le> ?wp" "?wp < ?sz"
    and len: "\<forall>c<length (buffer rb). length (buffer rb ! c) = nat ?sz"
    by (auto simp: ring_ok_def list_all_length)
  have m: "?m = min (length src) (length (buffer rb))"
    by (simp add: getNumChannels_def)
  have ns: "0 \<le> getNumSamples src" by (simp add: getNumSamples_def split: list.splits)
  have "\<exists>buf'. write_channels ?sz src ?n ?wp 0 ?m (buffer rb) = Inr buf' \<and>
      length buf' = length (buffer rb) \<and>
      (\<forall>c<length (buffer rb). buf' ! c =
         (if 0 \<le> c \<and> c < 0 + ?m
          then ring_put (nat ?sz) (nat ?wp) (take ?n (src ! c)) (buffer rb ! c) else buffer rb ! c))"
    using sz len m rect_length [OF r] by (intro write_channels_eq) auto
  then obtain buf' where b: "write_channels ?sz src ?n ?wp 0 ?m (buffer rb) = Inr buf'"
    "length buf' = length (buffer rb)"
    "\<And>c. c < length (buffer rb) \<Longrightarrow> buf' ! c =
         (if c < ?m then ring_put (nat ?sz) (nat ?wp) (src ! c) (buffer rb ! c) else buffer rb ! c)"
    using rect_length [OF r] m by auto
  let ?wp' = "(?wp + getNumSamples src) smod ?sz"
  let ?rb' = "rb\<lparr>buffer := buf', writePos := ?wp'\<rparr>"
  have wp': "?wp' = (?wp + getNumSamples src) mod ?sz"
    using sz ns by (simp add: smod_int_alt_def sgn_if)
  then have wpn: "nat ?wp' = (nat ?wp + ?n) mod nat ?sz"
    using sz ns by (simp add: nat_mod_distrib nat_add_distrib)
  have w: "write_rb rb src = Inr ?rb'"
    using b(1) sz by (simp add: write_rb_def Let_def)
  have ok': "ring_ok ?rb'"
    using sz wp' b(2,3) len by (auto simp: ring_ok_def list_all_length)
  have win: "window (nat ?sz) (nat ?wp') (buf' ! c) (h @ src ! c)"
    if "c < length (buffer rb)" "c < length src"
      "window (nat ?sz) (nat ?wp) (buffer rb ! c) h" for c h
  proof -
    have "buf' ! c = ring_put (nat ?sz) (nat ?wp) (src ! c) (buffer rb ! c)"
      using b(3) that m by simp
    moreover have "length (src ! c) = ?n" using rect_length [OF r] that by simp
    ultimately show ?thesis
      using window_ring_put [OF that(3), of "src ! c"] wpn by simp
  qed
  show ?thesis
    using w ok' b(2) win by (intro exI [of _ ?rb']) simp
qed

lemma write_all_ok:
  assumes "ring_ok rb" "list_all rect bs"
  shows "\<exists>rb'. write_all rb bs = Inr rb' \<and> ring_ok rb' \<and> size_rb rb' = size_rb rb \<and>
    length (buffer rb') = length (buffer rb) \<and>
    (\<forall>c h. c < length (buffer rb) \<longrightarrow> list_all (\<lambda>b. c < length b) bs \<longrightarrow>
       window (nat (size_rb rb)) (nat (writePos rb)) (buffer rb ! c) h \<longrightarrow>
       window (nat (size_rb rb')) (nat (writePos rb')) (buffer rb' ! c) (h @ stream c bs))"
  using assms
proof (induction bs arbitrary: rb)
  case Nil
  then show ?case by (simp add: stream_def)
next
  case (Cons b bs)
  from Cons.prems have r: "rect b" "list_all rect bs" by simp_all
  from write_rb_ok [OF Cons.prems(1) r(1)] obtain rb1 where
    w: "write_rb rb b = Inr rb1" and ok1: "ring_ok rb1" and sz1: "size_rb rb1 = size_rb rb"
    and l1: "length (buffer rb1) = length (buffer rb)"
    and win1: "\<And>c h. c < length (buffer rb) \<Longrightarrow> c < length b \<Longrightarrow>
       window (nat (size_rb rb)) (nat (writePos rb)) (buffer rb ! c) h \<Longrightarrow>
       window (nat (size_rb rb1)) (nat (writePos rb1)) (buffer rb1 ! c) (h @ b ! c)"
    by blast
  from Cons.IH [OF ok1 r(2)] obtain rb' where
    w': "write_all rb1 bs = Inr rb'" and ok': "ring_ok rb'" and sz': "size_rb rb' = size_rb rb1"
    and l': "length (buffer rb') = length (buffer rb1)"
    and win': "\<And>c h. c < length (buffer rb1) \<Longrightarrow> list_all (\<lambda>b. c < length b) bs \<Longrightarrow>
       window (nat (size_rb rb1)) (nat (writePos rb1)) (buffer rb1 ! c) h \<Longrightarrow>
       window (nat (size_rb rb')) (nat (writePos rb')) (buffer rb' ! c) (h @ stream c bs)"
    by blast
  have "window (nat (size_rb rb')) (nat (writePos rb')) (buffer rb' ! c) (h @ stream c (b # bs))"
    if "c < length (buffer rb)" "list_all (\<lambda>b. c < length b) (b # bs)"
      "window (nat (size_rb rb)) (nat (writePos rb)) (buffer rb ! c) h" for c h
  proof -
    have "window (nat (size_rb rb1)) (nat (writePos rb1)) (buffer rb1 ! c) (h @ b ! c)"
      using win1 that by simp
    moreover have "c < length (buffer rb1)" "list_all (\<lambda>b. c < length b) bs"
      using that l1 by simp_all
    ultimately have "window (nat (size_rb rb')) (nat (writePos rb')) (buffer rb' ! c) ((h @ b ! c) @ stream c bs)"
      by (rule win' [rotated 2])
    then show ?thesis by (simp add: stream_def)
  qed
  then show ?case using w w' ok' sz' sz1 l' l1 by (intro exI [of _ rb']) simp
qed

lemma copy_samples_eq:
  assumes "ch < length buf" "ch < length dest" "length (buf ! ch) = nat sz"
    "0 \<le> rp" "rp < sz" "i + k \<le> length (dest ! ch)"
  shows "copy_samples sz buf (int ch) i k rp dest =
    Inr (dest[ch := take i (dest ! ch) @ ring_get (nat sz) (nat rp) k (buf ! ch)
                     @ drop (i + k) (dest ! ch)])"
  using assms
proof (induction k arbitrary: i rp dest)
  case 0
  then show ?case by simp
next
  case (Suc k)
  let ?v = "buf ! ch ! nat rp"
  let ?d = "dest ! ch"
  let ?dest' = "dest[ch := ?d[i := ?v]]"
  let ?rp' = "if rp + 1 \<ge> sz then 0 else rp + 1"
  have g: "getSample buf (int ch) rp = Inr ?v"
    using Suc.prems by (simp add: getSample_def getNumChannels_def)
  have s: "setSample dest (int ch) (int i) ?v = Inr ?dest'"
    using Suc.prems by (simp add: setSample_def getNumChannels_def)
  have p': "nat ?rp' = (if nat sz \<le> nat rp + 1 then 0 else nat rp + 1)"
    using Suc.prems by auto
  have ih: "copy_samples sz buf (int ch) (Suc i) k ?rp' ?dest' =
    Inr (?dest'[ch := take (Suc i) (?dest' ! ch) @ ring_get (nat sz) (nat ?rp') k (buf ! ch)
                     @ drop (Suc i + k) (?dest' ! ch)])"
    using Suc.prems by (intro Suc.IH) auto
  have t: "take (Suc i) (?d[i := ?v]) = take i ?d @ [?v]"
    using Suc.prems by (simp add: take_Suc_conv_app_nth)
  have d: "drop (Suc i + k) (?d[i := ?v]) = drop (i + Suc k) ?d" by simp
  have n: "?dest' ! ch = ?d[i := ?v]" using Suc.prems by simp
  show ?case
    unfolding copy_samples.simps g s sum.case ih n t d ring_get.simps p'
    by simp
qed

lemma startReadPos_mod:
  assumes "ring_ok rb" "0 \<le> s"
  shows "0 \<le> startReadPos rb s" "startReadPos rb s < size_rb rb"
    "nat (startReadPos rb s) = (nat (writePos rb) + nat s) mod nat (size_rb rb)"
proof -
  from assms have sz: "0 < size_rb rb" "0 \<le> writePos rb" by (auto simp: ring_ok_def)
  have "startReadPos rb s = (writePos rb - size_rb rb + s) mod size_rb rb"
    using smod_wrap [OF sz(1), of "writePos rb - size_rb rb + s"]
    by (simp add: startReadPos_def Let_def)
  also have "\<dots> = (writePos rb + s) mod size_rb rb"
    using mod_mult_self1 [of "writePos rb + s" "- 1" "size_rb rb"] by (simp add: algebra_simps)
  finally have e: "startReadPos rb s = (writePos rb + s) mod size_rb rb" .
  show "0 \<le> startReadPos rb s" "startReadPos rb s < size_rb rb"
    using sz e by simp_all
  show "nat (startReadPos rb s) = (nat (writePos rb) + nat s) mod nat (size_rb rb)"
    using sz e assms(2) by (simp add: nat_mod_distrib nat_add_distrib)
qed

lemma copy_channels_eq:
  assumes "ring_ok rb" "0 \<le> s" "ch + m \<le> length (buffer rb)" "ch + m \<le> length dest"
    "\<forall>c<length dest. n \<le> length (dest ! c)"
  shows "\<exists>dest'. copy_channels rb s n ch m dest = Inr dest' \<and> length dest' = length dest \<and>
    (\<forall>c<length dest. dest' ! c =
       (if ch \<le> c \<and> c < ch + m
        then ring_get (nat (size_rb rb)) ((nat (writePos rb) + nat s) mod nat (size_rb rb)) n
               (buffer rb ! c) @ drop n (dest ! c)
        else dest ! c))"
  using assms(3-)
proof (induction m arbitrary: ch dest)
  case 0
  have "\<forall>c<length dest. dest ! c =
       (if ch \<le> c \<and> c < ch + 0
        then ring_get (nat (size_rb rb)) ((nat (writePos rb) + nat s) mod nat (size_rb rb)) n
               (buffer rb ! c) @ drop n (dest ! c)
        else dest ! c)"
    by auto
  then show ?case by (intro exI [of _ dest]) simp
next
  case (Suc m)
  let ?N = "nat (size_rb rb)"
  let ?p = "(nat (writePos rb) + nat s) mod ?N"
  let ?dest1 = "dest[ch := ring_get ?N ?p n (buffer rb ! ch) @ drop n (dest ! ch)]"
  from assms(1) have sz: "0 < size_rb rb"
    and len: "\<And>c. c < length (buffer rb) \<Longrightarrow> length (buffer rb ! c) = ?N"
    by (auto simp: ring_ok_def list_all_length)
  have "copy_samples (size_rb rb) (buffer rb) (int ch) 0 n (startReadPos rb s) dest =
    Inr (dest[ch := take 0 (dest ! ch) @ ring_get ?N (nat (startReadPos rb s)) n (buffer rb ! ch)
                     @ drop (0 + n) (dest ! ch)])"
    using Suc.prems len startReadPos_mod(1,2) [OF assms(1,2)]
    by (intro copy_samples_eq) auto
  then have w: "copy_samples (size_rb rb) (buffer rb) (int ch) 0 n (startReadPos rb s) dest =
    Inr ?dest1"
    using startReadPos_mod(3) [OF assms(1,2)] by simp
  have "\<exists>dest'. copy_channels rb s n (Suc ch) m ?dest1 = Inr dest' \<and>
      length dest' = length ?dest1 \<and>
      (\<forall>c<length ?dest1. dest' ! c =
         (if Suc ch \<le> c \<and> c < Suc ch + m
          then ring_get ?N ?p n (buffer rb ! c) @ drop n (?dest1 ! c) else ?dest1 ! c))"
    using Suc.prems by (intro Suc.IH) (auto simp: nth_list_update)
  then obtain dest' where b: "copy_channels rb s n (Suc ch) m ?dest1 = Inr dest'"
    "length dest' = length dest"
    "\<And>c. c < length dest \<Longrightarrow> dest' ! c =
         (if Suc ch \<le> c \<and> c < Suc ch + m
          then ring_get ?N ?p n (buffer rb ! c) @ drop n (?dest1 ! c) else ?dest1 ! c)"
    by auto
  have "copy_channels rb s n ch (Suc m) dest = Inr dest'"
    using w b(1) sz by simp
  moreover have "\<forall>c<length dest. dest' ! c =
       (if ch \<le> c \<and> c < ch + Suc m
        then ring_get ?N ?p n (buffer rb ! c) @ drop n (dest ! c) else dest ! c)"
  proof (intro allI impI)
    fix c assume c: "c < length dest"
    consider "c < ch" | "c = ch" | "ch < c" by linarith
    then show "dest' ! c =
       (if ch \<le> c \<and> c < ch + Suc m
        then ring_get ?N ?p n (buffer rb ! c) @ drop n (dest ! c) else dest ! c)"
    proof cases
      case 1 then show ?thesis using b(3) [OF c] by simp
    next
      case 2 then show ?thesis using b(3) [OF c] c by simp
    next
      case 3 then show ?thesis using b(3) [OF c] by simp
    qed
  qed
  ultimately show ?case using b(2) by blast
qed

text \<open>
  What \<open>copyTo\<close> delivers: \<open>startSample\<close> counts from the oldest sample the ring still
  holds, \<open>size\<close> samples before the write cursor.
\<close>

lemma copyTo_window:
  assumes ok: "ring_ok rb" and r: "rect dest" and s: "0 \<le> s" "s \<le> e" "e \<le> size_rb rb"
  shows "\<exists>dest'. copyTo rb dest s e = Inr dest' \<and> length dest' = length dest \<and>
    (\<forall>c<length dest. length (dest' ! c) = length (dest ! c)) \<and>
    (\<forall>c h. c < length dest \<longrightarrow> c < length (buffer rb) \<longrightarrow>
       window (nat (size_rb rb)) (nat (writePos rb)) (buffer rb ! c) h \<longrightarrow>
       dest' ! c = take (nat (min (getNumSamples dest) (e - s)))
                     (drop (length h - nat (size_rb rb) + nat s) h)
                   @ drop (nat (min (getNumSamples dest) (e - s))) (dest ! c))"
proof -
  let ?n = "nat (min (getNumSamples dest) (e - s))"
  let ?m = "nat (min (getNumChannels dest) (getNumChannels (buffer rb)))"
  let ?N = "nat (size_rb rb)"
  let ?p = "(nat (writePos rb) + nat s) mod ?N"
  have m: "?m = min (length dest) (length (buffer rb))"
    by (simp add: getNumChannels_def)
  have dl: "\<And>c. c < length dest \<Longrightarrow> length (dest ! c) = nat (getNumSamples dest)"
    using rect_length [OF r] by simp
  have "\<exists>dest'. copy_channels rb s ?n 0 ?m dest = Inr dest' \<and> length dest' = length dest \<and>
    (\<forall>c<length dest. dest' ! c =
       (if 0 \<le> c \<and> c < 0 + ?m
        then ring_get ?N ?p ?n (buffer rb ! c) @ drop ?n (dest ! c)
        else dest ! c))"
    using ok s(1) m dl by (intro copy_channels_eq) auto
  then obtain dest' where b: "copy_channels rb s ?n 0 ?m dest = Inr dest'"
    "length dest' = length dest"
    "\<And>c. c < length dest \<Longrightarrow> dest' ! c =
       (if c < ?m then ring_get ?N ?p ?n (buffer rb ! c) @ drop ?n (dest ! c) else dest ! c)"
    by auto
  have c: "copyTo rb dest s e = Inr dest'"
    using b(1) by (simp add: copyTo_def Let_def)
  have l: "length (dest' ! c) = length (dest ! c)" if "c < length dest" for c
    using b(3) [OF that] dl [OF that] by auto
  have w: "dest' ! c = take ?n (drop (length h - ?N + nat s) h) @ drop ?n (dest ! c)"
    if "c < length dest" "c < length (buffer rb)" "window ?N (nat (writePos rb)) (buffer rb ! c) h"
    for c h
  proof -
    have "nat s + ?n \<le> ?N" using s by linarith
    from window_ring_get [OF that(3) this] show ?thesis
      using b(3) [OF that(1)] that m by simp
  qed
  show ?thesis using c b(2) l w by (intro exI [of _ dest']) simp
qed

lemma new_ring_ok:
  "0 < cap \<Longrightarrow> list_all (\<lambda>c. length c = nat cap) g \<Longrightarrow> ring_ok (CircularAudioBuffer_new g cap)"
  by (simp add: ring_ok_def CircularAudioBuffer_new_def)

lemma new_window:
  "0 < cap \<Longrightarrow> length c = nat cap \<Longrightarrow> window (nat cap) 0 c c"
  by (simp add: window_def)

text \<open>
  Claim C2.  Let any sequence of blocks be written to a ring of capacity \<open>cap\<close>, and let
  \<open>copyTo\<close> be asked for the window of \<open>W \<le> cap\<close> samples that ends at the write cursor
  (from \<open>size - W\<close> to \<open>size\<close>).  If at least \<open>W\<close> samples were written to a channel, the
  first \<open>W\<close> samples of that channel of the destination are afterwards the last \<open>W\<close>
  samples written, in the order they were written, and the rest of the destination is
  untouched.  Both calls return.
\<close>

theorem copyTo_round_trip:
  assumes cap: "0 < cap" "list_all (\<lambda>c. length c = nat cap) g"
    and bs: "list_all rect bs" "list_all (\<lambda>b. c < length b) bs"
    and c: "c < length g" "c < length dest"
    and dest: "rect dest" "int W \<le> getNumSamples dest"
    and W: "int W \<le> cap" "W \<le> length (stream c bs)"
  shows "\<exists>rb dest'. write_all (CircularAudioBuffer_new g cap) bs = Inr rb \<and>
    copyTo rb dest (size_rb rb - int W) (size_rb rb) = Inr dest' \<and>
    take W (dest' ! c) = drop (length (stream c bs) - W) (stream c bs) \<and>
    drop W (dest' ! c) = drop W (dest ! c)"
proof -
  let ?rb0 = "CircularAudioBuffer_new g cap"
  have ok0: "ring_ok ?rb0" by (rule new_ring_ok [OF cap])
  have gc: "length (g ! c) = nat cap" using cap(2) c(1) by (simp add: list_all_length)
  have f0: "size_rb ?rb0 = cap" "writePos ?rb0 = 0" "buffer ?rb0 = g"
    by (simp_all add: CircularAudioBuffer_new_def)
  have w0: "window (nat (size_rb ?rb0)) (nat (writePos ?rb0)) (buffer ?rb0 ! c) (g ! c)"
    using new_window [OF cap(1) gc] by (simp add: f0)
  from write_all_ok [OF ok0 bs(1)] obtain rb where
    w: "write_all ?rb0 bs = Inr rb" and ok: "ring_ok rb" and sz: "size_rb rb = size_rb ?rb0"
    and l: "length (buffer rb) = length (buffer ?rb0)"
    and win0: "\<And>c h. c < length (buffer ?rb0) \<Longrightarrow> list_all (\<lambda>b. c < length b) bs \<Longrightarrow>
       window (nat (size_rb ?rb0)) (nat (writePos ?rb0)) (buffer ?rb0 ! c) h \<Longrightarrow>
       window (nat (size_rb rb)) (nat (writePos rb)) (buffer rb ! c) (h @ stream c bs)"
    by blast
  have c0: "c < length (buffer ?rb0)" using c(1) by (simp add: f0)
  have win: "window (nat (size_rb rb)) (nat (writePos rb)) (buffer rb ! c) (g ! c @ stream c bs)"
    by (rule win0 [OF c0 bs(2) w0])
  have s: "0 \<le> size_rb rb - int W" using W(1) sz by (simp add: f0)
  have s': "size_rb rb - int W \<le> size_rb rb" by simp
  from copyTo_window [OF ok dest(1) s s' order_refl] obtain dest' where
    cp: "copyTo rb dest (size_rb rb - int W) (size_rb rb) = Inr dest'"
    and d0: "\<And>c h. c < length dest \<Longrightarrow> c < length (buffer rb) \<Longrightarrow>
       window (nat (size_rb rb)) (nat (writePos rb)) (buffer rb ! c) h \<Longrightarrow>
       dest' ! c = take (nat (min (getNumSamples dest) (size_rb rb - (size_rb rb - int W))))
                     (drop (length h - nat (size_rb rb) + nat (size_rb rb - int W)) h)
                   @ drop (nat (min (getNumSamples dest) (size_rb rb - (size_rb rb - int W)))) (dest ! c)"
    by blast
  have cl: "c < length (buffer rb)" using l c0 by simp
  note d = d0 [OF c(2) cl win]
  have n: "nat (min (getNumSamples dest) (size_rb rb - (size_rb rb - int W))) = W"
    using dest(2) by simp
  have i: "length (g ! c @ stream c bs) - nat (size_rb rb) + nat (size_rb rb - int W)
      = length (g ! c) + (length (stream c bs) - W)"
    using gc sz W by (simp add: nat_diff_distrib f0)
  have d': "dest' ! c = drop (length (stream c bs) - W) (stream c bs) @ drop W (dest ! c)"
    using d W(2) unfolding n i by simp
  have "length (drop (length (stream c bs) - W) (stream c bs)) = W" using W(2) by simp
  then have "take W (dest' ! c) = drop (length (stream c bs) - W) (stream c bs)"
    "drop W (dest' ! c) = drop W (dest ! c)"
    unfolding d' by simp_all
  then show ?thesis using w cp by blast
qed

theorem copyTo_round_trip_witness:
  "\<exists>rb dest'.
     write_all (CircularAudioBuffer_new [[Fin 9, Fin 9, Fin 9, Fin 9]] 4)
       [[[Fin 1, Fin 2, Fin 3]], [[Fin 4, Fin 5, Fin 6]]] = Inr rb \<and>
     copyTo rb [[Fin 0, Fin 0, Fin 0]] (size_rb rb - int 3) (size_rb rb) = Inr dest' \<and>
     take 3 (dest' ! 0) = [Fin 4, Fin 5, Fin 6] \<and> drop 3 (dest' ! 0) = []"
  using copyTo_round_trip [of 4 "[[Fin 9, Fin 9, Fin 9, Fin 9]]"
      "[[[Fin 1, Fin 2, Fin 3]], [[Fin 4, Fin 5, Fin 6]]]" 0 "[[Fin 0, Fin 0, Fin 0]]" 3]
  by (simp add: rect_def getNumSamples_def stream_def)

section \<open>The trim region\<close>

lemma trim_region_okD:
  assumes "trim_region_ok p"
  obtains s e where "startPosition p = Fin s" "endPosition p = Fin e" "s < e"
    "- (1 / 50) \<le> s" "s \<le> 1" "0 \<le> e" "e \<le> 51 / 50"
  using assms unfolding trim_region_ok_def by (auto split: fl.splits)

lemma trim_region_okI:
  assumes "startPosition p = Fin s" "endPosition p = Fin e" "s < e"
    "- (1 / 50) \<le> s" "s \<le> 1" "0 \<le> e" "e \<le> 51 / 50"
  shows "trim_region_ok p"
  using assms unfolding trim_region_ok_def by simp

lemma start_slider:
  assumes pos: "startPosition p = Fin s" "endPosition p = Fin e"
    and b: "0 \<le> e" "e \<le> 51 / 50"
    and x: "0 \<le> x" "x \<le> 1"
  shows "\<exists>y s'. float32 x = Fin y \<and> 0 \<le> y \<and> y \<le> 1 \<and>
    sliderValueChanged StartSlider x p = p\<lparr>startPosition := Fin s'\<rparr> \<and>
    (if e \<le> y then \<bar>s' - (e - 1 / 100)\<bar> \<le> 1 / 2 ^ 22 else s' = y)"
proof -
  from float32_unit [OF x] obtain y where y: "float32 x = Fin y" "0 \<le> y" "y \<le> 1" by auto
  from float32_small [of "1 / 100"] obtain c where
    c: "float32 (1 / 100) = Fin c" "\<bar>c - 1 / 100\<bar> \<le> 1 / 2 ^ 23" by auto
  have "1 / 2 ^ 23 \<le> (1 / 10000 :: real)" by simp
  with c(2) have cb: "99 / 10000 \<le> c" "c \<le> 101 / 10000" by linarith+
  have "\<bar>e - c\<bar> \<le> 2" using b cb by linarith
  from float32_small [OF this] obtain z where
    z: "float32 (e - c) = Fin z" "\<bar>z - (e - c)\<bar> \<le> 1 / 2 ^ 23" by auto
  have h: "(1 / 2 ^ 22 :: real) = 1 / 2 ^ 23 + 1 / 2 ^ 23" by simp
  have zz: "\<bar>z - (e - 1 / 100)\<bar> \<le> 1 / 2 ^ 22" unfolding h using z(2) c(2) by linarith
  show ?thesis
  proof (cases "e \<le> y")
    case True
    then have "sliderValueChanged StartSlider x p = p\<lparr>startPosition := Fin z\<rparr>"
      by (simp add: sliderValueChanged_def setStartPosition_def getStartPosition_def
          getEndPosition_def Let_def y pos c fsubf_def fsub_def z)
    then show ?thesis using y zz True by (intro exI [of _ y] exI [of _ z]) simp
  next
    case False
    then have "sliderValueChanged StartSlider x p = p\<lparr>startPosition := Fin y\<rparr>"
      by (simp add: sliderValueChanged_def setStartPosition_def getStartPosition_def
          getEndPosition_def Let_def y pos)
    then show ?thesis using y False by (intro exI [of _ y] exI [of _ y]) simp
  qed
qed

lemma end_slider:
  assumes pos: "startPosition p = Fin s" "endPosition p = Fin e"
    and b: "- (1 / 50) \<le> s" "s \<le> 1"
    and x: "0 \<le> x" "x \<le> 1"
  shows "\<exists>y e'. float32 x = Fin y \<and> 0 \<le> y \<and> y \<le> 1 \<and>
    sliderValueChanged EndSlider x p = p\<lparr>endPosition := Fin e'\<rparr> \<and>
    (if y \<le> s then \<bar>e' - (s + 1 / 100)\<bar> \<le> 1 / 2 ^ 22 else e' = y)"
proof -
  from float32_unit [OF x] obtain y where y: "float32 x = Fin y" "0 \<le> y" "y \<le> 1" by auto
  from float32_small [of "1 / 100"] obtain c where
    c: "float32 (1 / 100) = Fin c" "\<bar>c - 1 / 100\<bar> \<le> 1 / 2 ^ 23" by auto
  have "1 / 2 ^ 23 \<le> (1 / 10000 :: real)" by simp
  with c(2) have cb: "99 / 10000 \<le> c" "c \<le> 101 / 10000" by linarith+
  have "\<bar>s + c\<bar> \<le> 2" using b cb by linarith
  from float32_small [OF this] obtain z where
    z: "float32 (s + c) = Fin z" "\<bar>z - (s + c)\<bar> \<le> 1 / 2 ^ 23" by auto
  have h: "(1 / 2 ^ 22 :: real) = 1 / 2 ^ 23 + 1 / 2 ^ 23" by simp
  have zz: "\<bar>z - (s + 1 / 100)\<bar> \<le> 1 / 2 ^ 22" unfolding h using z(2) c(2) by linarith
  show ?thesis
  proof (cases "y \<le> s")
    case True
    then have "sliderValueChanged EndSlider x p = p\<lparr>endPosition := Fin z\<rparr>"
      by (simp add: sliderValueChanged_def setEndPosition_def getStartPosition_def
          getEndPosition_def Let_def y pos c faddf_def z)
    then show ?thesis using y zz True by (intro exI [of _ y] exI [of _ z]) simp
  next
    case False
    then have "sliderValueChanged EndSlider x p = p\<lparr>endPosition := Fin y\<rparr>"
      by (simp add: sliderValueChanged_def setEndPosition_def getStartPosition_def
          getEndPosition_def Let_def y pos)
    then show ?thesis using y False by (intro exI [of _ y] exI [of _ y]) simp
  qed
qed

lemma sliderValueChanged_ok:
  assumes ok: "trim_region_ok p" and x: "0 \<le> x" "x \<le> 1"
  shows "trim_region_ok (sliderValueChanged sl x p)"
proof -
  from ok obtain s e where pos: "startPosition p = Fin s" "endPosition p = Fin e"
    and b: "s < e" "- (1 / 50) \<le> s" "s \<le> 1" "0 \<le> e" "e \<le> 51 / 50"
    by (rule trim_region_okD)
  have t: "(1 / 2 ^ 22 :: real) \<le> 1 / 1000" by simp
  show ?thesis
  proof (cases sl)
    case StartSlider
    from start_slider [OF pos b(4,5) x] obtain y s' where
      y: "0 \<le> y" "y \<le> 1"
      and r: "sliderValueChanged StartSlider x p = p\<lparr>startPosition := Fin s'\<rparr>"
      and v: "if e \<le> y then \<bar>s' - (e - 1 / 100)\<bar> \<le> 1 / 2 ^ 22 else s' = y"
      by blast
    have "s' < e \<and> - (1 / 50) \<le> s' \<and> s' \<le> 1"
    proof (cases "e \<le> y")
      case True
      with v have "\<bar>s' - (e - 1 / 100)\<bar> \<le> 1 / 2 ^ 22" by simp
      then show ?thesis using t True y b by linarith
    next
      case False
      with v have "s' = y" by simp
      then show ?thesis using False y by simp
    qed
    then show ?thesis unfolding StartSlider r
      using pos b by (intro trim_region_okI [of _ s' e]) simp_all
  next
    case EndSlider
    from end_slider [OF pos b(2,3) x] obtain y e' where
      y: "0 \<le> y" "y \<le> 1"
      and r: "sliderValueChanged EndSlider x p = p\<lparr>endPosition := Fin e'\<rparr>"
      and v: "if y \<le> s then \<bar>e' - (s + 1 / 100)\<bar> \<le> 1 / 2 ^ 22 else e' = y"
      by blast
    have "s < e' \<and> 0 \<le> e' \<and> e' \<le> 51 / 50"
    proof (cases "y \<le> s")
      case True
      with v have "\<bar>e' - (s + 1 / 100)\<bar> \<le> 1 / 2 ^ 22" by simp
      then show ?thesis using t True y b by linarith
    next
      case False
      with v have "e' = y" by simp
      then show ?thesis using False y by simp
    qed
    then show ?thesis unfolding EndSlider r
      using pos b by (intro trim_region_okI [of _ s e']) simp_all
  next
    case OtherSlider
    then show ?thesis using ok by (simp add: sliderValueChanged_def)
  qed
qed

lemma slider_run_ok:
  assumes "trim_region_ok p" "list_all (\<lambda>(sl, x). 0 \<le> x \<and> x \<le> 1) evs"
  shows "trim_region_ok (slider_run p evs)"
  using assms
proof (induction evs arbitrary: p)
  case Nil
  then show ?case by simp
next
  case (Cons ev evs)
  obtain sl x where ev: "ev = (sl, x)" by (cases ev)
  from Cons.prems(2) have x: "0 \<le> x" "x \<le> 1" and r: "list_all (\<lambda>(sl, x). 0 \<le> x \<and> x \<le> 1) evs"
    by (simp_all add: ev)
  show ?case
    unfolding ev slider_run.simps
    by (rule Cons.IH [OF sliderValueChanged_ok [OF Cons.prems(1) x] r])
qed

text \<open>
  Claim C3.  \<open>setStartPosition\<close> and \<open>setEndPosition\<close> store the \<open>float\<close> they are given and
  compare nothing: after \<open>setStartPosition (0.75)\<close> and \<open>setEndPosition (0.25)\<close> the start
  lies beyond the end (\<open>setters_do_not_order\<close> below).  The order is kept by the handler
  of the sliders, \<open>sliderValueChanged\<close>, which stores the value of the slider with the
  setter and then, when the two bounds are out of order, sets the bound it stored to
  the other one minus or plus \<open>0.01f\<close>.  From a processor whose trim region is one the
  sliders produce (\<open>trim_region_ok\<close>; a fresh processor and one that enters the trimming
  state have the region from \<open>0\<close> to \<open>1\<close>), any sequence of slider movements with values
  from \<open>0\<close> to \<open>1\<close>, the range of the two sliders, leaves such a region, with
  \<open>startPosition < endPosition\<close>.  A single movement to \<open>x\<close> stores the \<open>float\<close> \<open>y\<close> nearest to
  \<open>x\<close> when that keeps the order, and otherwise a value within \<open>2^-22\<close> of the other bound
  minus (for the start) or plus (for the end) \<open>0.01\<close>.
\<close>

theorem trim_region_ordered:
  assumes "trim_region_ok p" and "startPosition p = Fin s" and "endPosition p = Fin e"
    and "list_all (\<lambda>(sl, x). 0 \<le> x \<and> x \<le> 1) evs" and "0 \<le> x" and "x \<le> 1"
  shows "trim_region_ok (slider_run p evs) \<and>
    flt (startPosition (slider_run p evs)) (endPosition (slider_run p evs)) \<and>
    (\<exists>y s'. float32 x = Fin y \<and>
       sliderValueChanged StartSlider x p = p\<lparr>startPosition := Fin s'\<rparr> \<and>
       (if e \<le> y then \<bar>s' - (e - 1 / 100)\<bar> \<le> 1 / 2 ^ 22 else s' = y)) \<and>
    (\<exists>y e'. float32 x = Fin y \<and>
       sliderValueChanged EndSlider x p = p\<lparr>endPosition := Fin e'\<rparr> \<and>
       (if y \<le> s then \<bar>e' - (s + 1 / 100)\<bar> \<le> 1 / 2 ^ 22 else e' = y))"
proof -
  have ok: "trim_region_ok (slider_run p evs)" by (rule slider_run_ok [OF assms(1,4)])
  then have lt: "flt (startPosition (slider_run p evs)) (endPosition (slider_run p evs))"
    by (rule trim_region_okD) simp
  from assms(1) have b: "- (1 / 50) \<le> s" "s \<le> 1" "0 \<le> e" "e \<le> 51 / 50"
    using assms(2,3) by (auto elim!: trim_region_okD)
  have st: "\<exists>y s'. float32 x = Fin y \<and>
       sliderValueChanged StartSlider x p = p\<lparr>startPosition := Fin s'\<rparr> \<and>
       (if e \<le> y then \<bar>s' - (e - 1 / 100)\<bar> \<le> 1 / 2 ^ 22 else s' = y)"
    using start_slider [OF assms(2,3) b(3,4) assms(5,6)] by blast
  have en: "\<exists>y e'. float32 x = Fin y \<and>
       sliderValueChanged EndSlider x p = p\<lparr>endPosition := Fin e'\<rparr> \<and>
       (if y \<le> s then \<bar>e' - (s + 1 / 100)\<bar> \<le> 1 / 2 ^ 22 else e' = y)"
    using end_slider [OF assms(2,3) b(1,2) assms(5,6)] by blast
  show ?thesis by (intro conjI ok lt st en)
qed

theorem trim_region_ordered_witness:
  "trim_region_ok (BufferedRecorderSamplerProcessor_new [] []) \<and>
   flt (startPosition (slider_run (BufferedRecorderSamplerProcessor_new [] [])
          [(EndSlider, 0), (StartSlider, 1), (EndSlider, 1 / 4), (StartSlider, 3 / 4)]))
       (endPosition (slider_run (BufferedRecorderSamplerProcessor_new [] [])
          [(EndSlider, 0), (StartSlider, 1), (EndSlider, 1 / 4), (StartSlider, 3 / 4)]))"
  using trim_region_ordered [of "BufferedRecorderSamplerProcessor_new [] []" 0 1
      "[(EndSlider, 0), (StartSlider, 1), (EndSlider, 1 / 4), (StartSlider, 3 / 4)]" "1 / 2"]
  by (simp add: BufferedRecorderSamplerProcessor_new_def trim_region_ok_def)

text \<open>
  The setters alone: two calls leave the start beyond the end.
\<close>

theorem setters_do_not_order:
  "\<exists>p. run no_synth (BufferedRecorderSamplerProcessor_new silent_memory silent_memory)
          [SetStartPosition (Fin (3 / 4)), SetEndPosition (Fin (1 / 4))] = Inr p \<and>
        startPosition p = Fin (3 / 4) \<and> endPosition p = Fin (1 / 4) \<and>
        \<not> flt (startPosition p) (endPosition p)"
  by (simp add: setStartPosition_def setEndPosition_def)

section \<open>The playback voice\<close>

text \<open>
  Claim C8.  \<open>startNote\<close> with a \<open>BufferedSamplerSound\<close> sets the rate to
  \<open>2\<close> to the power \<open>(midiNoteNumber - rootNote) / 12\<close>, the root note being that of the
  sound: \<open>1\<close> at the root note, \<open>2\<close> twelve notes above it and \<open>1/2\<close> twelve notes
  below.  It sets the read position to \<open>0\<close> and the level to \<open>velocity * 0.15\<close>, and
  clears the tail-off.
\<close>

theorem startNote_rate:
  "rate (startNote m vel (BufferedSound s) w v) = 2 powr (real_of_int (m - rootNote_snd s) / 12) \<and>
   rate (startNote (rootNote_snd s) vel (BufferedSound s) w v) = 1 \<and>
   rate (startNote (rootNote_snd s + 12) vel (BufferedSound s) w v) = 2 \<and>
   rate (startNote (rootNote_snd s - 12) vel (BufferedSound s) w v) = 1 / 2 \<and>
   rootNote (startNote m vel (BufferedSound s) w v) = rootNote_snd s \<and>
   sourceSamplePosition (startNote m vel (BufferedSound s) w v) = 0 \<and>
   level (startNote m vel (BufferedSound s) w v) = vel * (15 / 100) \<and>
   tailOff (startNote m vel (BufferedSound s) w v) = 0"
  by (simp add: startNote_def powr_minus)










section \<open>The pitch detector\<close>

lemma difference_inner_eq:
  "difference_inner frame tau j k yin =
     (if k = 0 \<or> (j + k + tau \<le> length frame \<and> tau < length yin)
      then Inr (yin[tau := dsum frame tau j k (yin ! tau)]) else Inl OutOfBounds)"
proof (induction k arbitrary: j yin)
  case 0
  then show ?case by simp
next
  case (Suc k)
  show ?case
  proof (cases "j < length frame \<and> j + tau < length frame \<and> tau < length yin")
    case False
    then show ?thesis by auto
  next
    case True
    let ?d = "fsub (frame ! j) (frame ! (j + tau))"
    let ?yin' = "yin[tau := fadd (yin ! tau) (fmul ?d ?d)]"
    have "difference_inner frame tau j (Suc k) yin = difference_inner frame tau (Suc j) k ?yin'"
      using True by (simp add: Let_def)
    also have "\<dots> = (if k = 0 \<or> (Suc j + k + tau \<le> length frame \<and> tau < length ?yin')
      then Inr (?yin'[tau := dsum frame tau (Suc j) k (?yin' ! tau)]) else Inl OutOfBounds)"
      by (rule Suc.IH)
    also have "\<dots> = (if Suc k = 0 \<or> (j + Suc k + tau \<le> length frame \<and> tau < length yin)
      then Inr (yin[tau := dsum frame tau j (Suc k) (yin ! tau)]) else Inl OutOfBounds)"
      using True by (cases "k = 0") auto
    finally show ?thesis .
  qed
qed

lemma difference_outer_eq:
  assumes "tau + k \<le> length yin"
  shows "difference_outer frame tau k yin =
     (if k = 0 \<or> length yin + (tau + k - 1) \<le> length frame
      then Inr (take tau yin @ map (difference frame (length yin)) [tau..<tau + k]
                @ drop (tau + k) yin)
      else Inl OutOfBounds)"
  using assms
proof (induction k arbitrary: tau yin)
  case 0
  then show ?case by simp
next
  case (Suc k)
  let ?n = "length yin"
  let ?D = "difference frame ?n"
  let ?yin' = "yin[tau := ?D tau]"
  have tau: "tau < ?n" using Suc.prems by simp
  have n: "?n \<noteq> 0" using tau by auto
  have inner: "difference_inner frame tau 0 ?n (yin[tau := Fin 0]) =
      (if ?n + tau \<le> length frame then Inr ?yin' else Inl OutOfBounds)"
    using tau n by (simp add: difference_inner_eq difference_def)
  show ?case
  proof (cases "?n + tau \<le> length frame")
    case False
    then show ?thesis using tau inner by simp
  next
    case True
    have l: "length ?yin' = ?n" by simp
    have "difference_outer frame tau (Suc k) yin = difference_outer frame (Suc tau) k ?yin'"
      using tau inner True by simp
    also have "\<dots> = (if k = 0 \<or> ?n + (Suc tau + k - 1) \<le> length frame
      then Inr (take (Suc tau) ?yin' @ map ?D [Suc tau..<Suc tau + k] @ drop (Suc tau + k) ?yin')
      else Inl OutOfBounds)"
      using Suc.IH [of "Suc tau" ?yin'] Suc.prems by simp
    also have "take (Suc tau) ?yin' = take tau yin @ [?D tau]"
      using tau by (simp add: take_Suc_conv_app_nth)
    also have "drop (Suc tau + k) ?yin' = drop (tau + Suc k) yin" by simp
    also have "(take tau yin @ [?D tau]) @ map ?D [Suc tau..<Suc tau + k] @ drop (tau + Suc k) yin
        = take tau yin @ map ?D [tau..<tau + Suc k] @ drop (tau + Suc k) yin"
    proof -
      have "[tau..<tau + Suc k] = tau # [Suc tau..<Suc tau + k]"
        using upt_conv_Cons [of tau "tau + Suc k"] by simp
      then show ?thesis by (simp del: upt_Suc)
    qed
    finally show ?thesis using True by (cases "k = 0") auto
  qed
qed

lemma detectPitch_pd_eq:
  "detectPitch_pd pd frame sz =
     (let n = length (yinBuffer pd)
      in if n = 0 \<or> length frame < 2 * n - 1 then Inl OutOfBounds
         else let yin2 = cumulative_mean 1 (n - 1) (Fin 0)
                           ((map (difference frame n) [0..<n])[0 := Fin 1])
              in case first_minimum (sampleRate pd) yin2 2 (n - 2) of
                   Inl e \<Rightarrow> Inl e
                 | Inr frequency \<Rightarrow> Inr (frequency, pd\<lparr>yinBuffer := yin2\<rparr>))"
proof (cases "length (yinBuffer pd) = 0")
  case True
  then show ?thesis by (simp add: detectPitch_pd_def)
next
  case False
  let ?n = "length (yinBuffer pd)"
  have c: "?n + (0 + ?n - 1) \<le> length frame \<longleftrightarrow> \<not> length frame < 2 * ?n - 1"
    using False by auto
  have "difference_outer frame 0 ?n (yinBuffer pd) =
     (if \<not> length frame < 2 * ?n - 1
      then Inr (map (difference frame ?n) [0..<?n]) else Inl OutOfBounds)"
    unfolding difference_outer_eq [of 0 ?n "yinBuffer pd" frame, simplified] c [simplified]
    using False by simp
  then show ?thesis using False by (simp add: detectPitch_pd_def Let_def)
qed

lemma detectPitch_pd_short_frame:
  "length frame < 2 * length (yinBuffer pd) - 1 \<Longrightarrow> detectPitch_pd pd frame sz = Inl OutOfBounds"
  by (simp add: detectPitch_pd_eq Let_def)

lemma dsum_silence:
  "k = 0 \<or> j + k + tau \<le> N \<Longrightarrow> dsum (replicate N (Fin 0)) tau j k (Fin 0) = Fin 0"
proof (induction k arbitrary: j)
  case 0
  then show ?case by simp
next
  case (Suc k)
  then have "dsum (replicate N (Fin 0)) tau (Suc j) k (Fin 0) = Fin 0"
    by (intro Suc.IH) auto
  then show ?case using Suc.prems by (simp add: fsub_def)
qed

lemma difference_silence:
  "n + tau \<le> N \<Longrightarrow> difference (replicate N (Fin 0)) n tau = Fin 0"
  by (simp add: difference_def dsum_silence)

lemma cumulative_mean_silence:
  "length pre = tau \<Longrightarrow> 1 \<le> tau \<Longrightarrow>
   cumulative_mean tau k (Fin 0) (pre @ replicate k (Fin 0)) = pre @ replicate k NaN"
proof (induction k arbitrary: tau pre)
  case 0
  then show ?case by simp
next
  case (Suc k)
  have "cumulative_mean (Suc tau) k (Fin 0) ((pre @ [NaN]) @ replicate k (Fin 0))
      = (pre @ [NaN]) @ replicate k NaN"
    using Suc.prems by (intro Suc.IH) simp_all
  then show ?case using Suc.prems by (simp add: Let_def nth_append list_update_append)
qed

lemma first_minimum_nan:
  "1 \<le> tau \<Longrightarrow> k = 0 \<or> tau + k \<le> Suc m \<Longrightarrow>
   first_minimum sr (x # replicate m NaN) tau k = Inr (Fin 0)"
proof (induction k arbitrary: tau)
  case 0
  then show ?case by simp
next
  case (Suc k)
  have "(x # replicate m NaN) ! tau = NaN"
    using Suc.prems by (cases tau) simp_all
  moreover have "first_minimum sr (x # replicate m NaN) (Suc tau) k = Inr (Fin 0)"
    using Suc.prems by (intro Suc.IH) auto
  ultimately show ?case by simp
qed

lemma detectPitch_pd_silence:
  assumes "1 \<le> length (yinBuffer pd)" "2 * length (yinBuffer pd) - 1 \<le> N"
  shows "detectPitch_pd pd (replicate N (Fin 0)) sz =
      Inr (Fin 0, pd\<lparr>yinBuffer := Fin 1 # replicate (length (yinBuffer pd) - 1) NaN\<rparr>) \<and>
    midiNoteFromFrequency (Fin 0) = Inr (- 1)"
proof -
  let ?n = "length (yinBuffer pd)"
  let ?z = "replicate N (Fin 0)"
  obtain m where m: "?n = Suc m" using assms(1) by (cases ?n) simp_all
  have "map (difference ?z ?n) [0..<?n] = map (\<lambda>_. Fin 0) [0..<?n]"
    using assms by (intro map_cong refl difference_silence) auto
  then have d: "(map (difference ?z ?n) [0..<?n])[0 := Fin 1] = [Fin 1] @ replicate m (Fin 0)"
    unfolding m by (simp add: map_replicate_const upt_conv_Cons del: upt_Suc)
  have "cumulative_mean 1 m (Fin 0) ([Fin 1] @ replicate m (Fin 0)) = [Fin 1] @ replicate m NaN"
    by (rule cumulative_mean_silence) simp_all
  then have c: "cumulative_mean 1 (?n - 1) (Fin 0) ((map (difference ?z ?n) [0..<?n])[0 := Fin 1])
      = Fin 1 # replicate (?n - 1) NaN"
    unfolding d by (simp add: m)
  have f: "first_minimum (sampleRate pd) (Fin 1 # replicate (?n - 1) NaN) 2 (?n - 2) = Inr (Fin 0)"
    by (rule first_minimum_nan) (auto simp: m)
  have "detectPitch_pd pd ?z sz = Inr (Fin 0, pd\<lparr>yinBuffer := Fin 1 # replicate (?n - 1) NaN\<rparr>)"
    unfolding detectPitch_pd_eq Let_def c f using assms by auto
  then show ?thesis by (simp add: midiNoteFromFrequency_def)
qed

text \<open>
  Claim C7.  On a frame of zeros that is long enough for the lags the detector reads
  (\<open>2 * yinBuffer.size() - 1\<close> samples, which a frame of \<open>bufferSize\<close> samples is),
  \<open>detectPitch\<close> returns \<open>0\<close>.  The difference function is \<open>0\<close> at every lag, its
  running sum is \<open>0\<close>, and the normalisation computes \<open>0 * (tau / 0)\<close>, a NaN, at every
  lag from \<open>1\<close> on: no comparison with a NaN holds, so the scan finds no minimum and
  runs to the end.  The note of the frequency \<open>0\<close> is the sentinel \<open>-1\<close>.
\<close>

theorem silence_has_no_pitch:
  assumes "1 \<le> length (yinBuffer pd)" "2 * length (yinBuffer pd) - 1 \<le> N"
  shows "detectPitch_pd pd (replicate N (Fin 0)) sz =
      Inr (Fin 0, pd\<lparr>yinBuffer := Fin 1 # replicate (length (yinBuffer pd) - 1) NaN\<rparr>) \<and>
    midiNoteFromFrequency (Fin 0) = Inr (- 1)"
  by (rule detectPitch_pd_silence [OF assms])

theorem silence_has_no_pitch_witness:
  "detectPitch_pd \<lparr>sampleRate = 48000, bufferSize = 2048, yinBuffer = replicate 1024 (Fin 0)\<rparr>
     (replicate 2048 (Fin 0)) 2048 =
   Inr (Fin 0, \<lparr>sampleRate = 48000, bufferSize = 2048, yinBuffer = Fin 1 # replicate 1023 NaN\<rparr>)"
  using silence_has_no_pitch
    [of "\<lparr>sampleRate = 48000, bufferSize = 2048, yinBuffer = replicate 1024 (Fin 0)\<rparr>" 2048 2048]
  by simp

lemma period_two_reads_past_yin:
  "detectPitch_pd \<lparr>sampleRate = sr, bufferSize = bs, yinBuffer = [a, b, c]\<rparr>
     (Fin 1 # Fin (- 1) # Fin 1 # Fin (- 1) # Fin 1 # rest) sz = Inl OutOfBounds"
  by (simp add: detectPitch_pd_def Let_def fsub_def eval_nat_numeral)

text \<open>
  Claim C6.  The accesses of \<open>detectPitch\<close> are not all in bounds.  The difference loop
  reads \<open>buffer[j + tau]\<close> up to index \<open>2 * yinBuffer.size() - 2\<close> whatever the length of
  the frame: a detector prepared for a host block of 4096 samples reads past the end
  of the 2048 samples of a chunk.  The scan reads \<open>yinBuffer[tau + 1]\<close> at the last lag
  \<open>tau = yinBuffer.size() - 1\<close> when that lag is under the threshold and below the lag
  before it, as for a signal whose period is that lag.
\<close>

theorem detectPitch_reads_out_of_bounds:
  "detectPitch_pd \<lparr>sampleRate = 48000, bufferSize = 4096, yinBuffer = replicate 2048 (Fin 0)\<rparr>
     (replicate 2048 (Fin 0)) 2048 = Inl OutOfBounds \<and>
   detectPitch_pd \<lparr>sampleRate = 48000, bufferSize = 6, yinBuffer = replicate 3 (Fin 0)\<rparr>
     (Fin 1 # Fin (- 1) # Fin 1 # Fin (- 1) # Fin 1 # replicate 2043 (Fin 0)) 2048
     = Inl OutOfBounds"
proof
  show "detectPitch_pd \<lparr>sampleRate = 48000, bufferSize = 4096, yinBuffer = replicate 2048 (Fin 0)\<rparr>
     (replicate 2048 (Fin 0)) 2048 = Inl OutOfBounds"
    by (rule detectPitch_pd_short_frame) simp
next
  have r: "replicate 3 (Fin 0) = [Fin 0, Fin 0, Fin 0 :: fl]" by (simp add: eval_nat_numeral)
  show "detectPitch_pd \<lparr>sampleRate = 48000, bufferSize = 6, yinBuffer = replicate 3 (Fin 0)\<rparr>
     (Fin 1 # Fin (- 1) # Fin 1 # Fin (- 1) # Fin 1 # replicate 2043 (Fin 0)) 2048
     = Inl OutOfBounds"
    unfolding r by (rule period_two_reads_past_yin)
qed

section \<open>The analysis of the trim region\<close>

lemma read_chunk_eq:
  assumes "read_chunk tb base i k cd = Inr cd'" "i + k \<le> length cd"
  shows "cd' = take i cd @ take k (drop (nat (base + int i)) (tb ! 0)) @ drop (i + k) cd \<and>
    (0 < k \<longrightarrow> tb \<noteq> [] \<and> 0 \<le> base + int i \<and> nat (base + int i) + k \<le> length (tb ! 0))"
  using assms
proof (induction k arbitrary: i cd)
  case 0
  then show ?case by simp
next
  case (Suc k)
  from Suc.prems(1) obtain v where g: "getSample tb 0 (base + int i) = Inr v"
    and r: "read_chunk tb base (Suc i) k (cd[i := v]) = Inr cd'"
    by (auto split: sum.splits)
  from g have b: "tb \<noteq> []" "0 \<le> base + int i" "base + int i < int (length (tb ! 0))"
    and v: "v = tb ! 0 ! nat (base + int i)"
    by (auto simp: getSample_def getNumChannels_def split: if_splits)
  have nb: "nat (base + int (Suc i)) = Suc (nat (base + int i))" using b(2) by simp
  have lt: "nat (base + int i) < length (tb ! 0)" using b(2,3) by linarith
  from Suc.IH [OF r] Suc.prems(2)
  have ih: "cd' = take (Suc i) (cd[i := v]) @ take k (drop (Suc (nat (base + int i))) (tb ! 0))
      @ drop (Suc i + k) (cd[i := v])"
    and ihb: "0 < k \<longrightarrow> Suc (nat (base + int i)) + k \<le> length (tb ! 0)"
    unfolding nb by simp_all
  have "take (Suc k) (drop (nat (base + int i)) (tb ! 0))
      = (tb ! 0 ! nat (base + int i)) # take k (drop (Suc (nat (base + int i))) (tb ! 0))"
    using lt by (simp add: Cons_nth_drop_Suc [symmetric])
  moreover have "take (Suc i) (cd[i := v]) = take i cd @ [v]"
    using Suc.prems(2) by (simp add: take_Suc_conv_app_nth)
  ultimately have "cd' = take i cd @ take (Suc k) (drop (nat (base + int i)) (tb ! 0))
      @ drop (i + Suc k) cd"
    using ih v by simp
  moreover have "nat (base + int i) + Suc k \<le> length (tb ! 0)"
    using ihb lt by (cases k) simp_all
  ultimately show ?case using b by simp
qed

lemma read_chunk_whole:
  assumes "read_chunk tb base 0 chunkSize (replicate chunkSize (Fin 0)) = Inr cd"
  shows "cd = take chunkSize (drop (nat base) (tb ! 0))" "tb \<noteq> []" "0 \<le> base"
    "nat base + chunkSize \<le> length (tb ! 0)"
  using read_chunk_eq [OF assms] by (simp_all add: chunkSize_def)

lemma length_cumulative_mean [simp]: "length (cumulative_mean tau k acc yin) = length yin"
  by (induction k arbitrary: tau acc yin) (simp_all add: Let_def)

lemma detectPitch_pd_shape:
  assumes "detectPitch_pd pd frame sz = Inr (f, pd')"
  shows "sampleRate pd' = sampleRate pd" "length (yinBuffer pd') = length (yinBuffer pd)"
  using assms
  by (auto simp: detectPitch_pd_eq Let_def split: if_splits sum.splits)

lemma detectPitch_pd_cong:
  assumes "sampleRate pd1 = sampleRate pd2" "length (yinBuffer pd1) = length (yinBuffer pd2)"
  shows "map_sum id fst (detectPitch_pd pd1 frame sz) = map_sum id fst (detectPitch_pd pd2 frame sz)"
  using assms by (simp add: detectPitch_pd_eq Let_def split: sum.splits)

lemma note_of_chunk_cong:
  assumes "sampleRate pd1 = sampleRate pd2" "length (yinBuffer pd1) = length (yinBuffer pd2)"
  shows "note_of_chunk pd1 chunk = note_of_chunk pd2 chunk"
proof -
  have "note_of_chunk pd chunk =
    (case map_sum id fst (detectPitch_pd pd chunk (int chunkSize)) of
       Inl e \<Rightarrow> Inl e | Inr frequency \<Rightarrow> midiNoteFromFrequency frequency)" for pd
    by (simp add: note_of_chunk_def split: sum.splits prod.splits)
  then show ?thesis using detectPitch_pd_cong [OF assms] by simp
qed

lemma analyse_chunks_notes:
  assumes "analyse_chunks tb startSample c k (Some pd) h = Inr (pdo, h')"
  shows "\<exists>notes pd'. pdo = Some pd' \<and> sampleRate pd' = sampleRate pd \<and>
    length (yinBuffer pd') = length (yinBuffer pd) \<and> length notes = k \<and>
    (\<forall>i<k. note_of_chunk pd (chunk_at tb startSample (c + i)) = Inr (notes ! i) \<and>
            0 \<le> startSample + int (c + i) * int chunkSize \<and>
            nat (startSample + int (c + i) * int chunkSize) + chunkSize \<le> length (tb ! 0)) \<and>
    h' = fold record_note notes h"
  using assms
proof (induction k arbitrary: c pd h)
  case 0
  then show ?case by auto
next
  case (Suc k)
  let ?base = "startSample + int c * int chunkSize"
  from Suc.prems obtain cd f pd1 m where
    rc: "read_chunk tb ?base 0 chunkSize (replicate chunkSize (Fin 0)) = Inr cd"
    and dp: "detectPitch_pd pd cd (int chunkSize) = Inr (f, pd1)"
    and mn: "midiNoteFromFrequency f = Inr m"
    and rest: "analyse_chunks tb startSample (Suc c) k (Some pd1) (record_note m h) = Inr (pdo, h')"
    by (auto simp: record_note_def split: sum.splits prod.splits)
  note w = read_chunk_whole [OF rc]
  have cd: "cd = chunk_at tb startSample c" using w(1) by (simp add: chunk_at_def)
  have n0: "note_of_chunk pd (chunk_at tb startSample c) = Inr m"
    using dp mn by (simp add: note_of_chunk_def cd)
  note sh = detectPitch_pd_shape [OF dp]
  from Suc.IH [OF rest] obtain ms pd' where ih: "pdo = Some pd'"
    "sampleRate pd' = sampleRate pd1" "length (yinBuffer pd') = length (yinBuffer pd1)"
    "length ms = k"
    "\<And>i. i < k \<Longrightarrow> note_of_chunk pd1 (chunk_at tb startSample (Suc c + i)) = Inr (ms ! i) \<and>
            0 \<le> startSample + int (Suc c + i) * int chunkSize \<and>
            nat (startSample + int (Suc c + i) * int chunkSize) + chunkSize \<le> length (tb ! 0)"
    "h' = fold record_note ms (record_note m h)"
    by blast
  have "note_of_chunk pd (chunk_at tb startSample (c + i)) = Inr ((m # ms) ! i) \<and>
            0 \<le> startSample + int (c + i) * int chunkSize \<and>
            nat (startSample + int (c + i) * int chunkSize) + chunkSize \<le> length (tb ! 0)"
    if "i < Suc k" for i
  proof (cases i)
    case 0
    then show ?thesis using n0 w by simp
  next
    case (Suc i')
    then have "i' < k" using that by simp
    from ih(5) [OF this] show ?thesis
      using Suc note_of_chunk_cong [OF sh, of "chunk_at tb startSample (Suc c + i')"] by simp
  qed
  then show ?case
    using ih sh by (intro exI [of _ "m # ms"] exI [of _ pd']) simp
qed

lemma keys_hist_increment: "fst ` set (hist_increment m h) = insert m (fst ` set h)"
proof (induction h)
  case Nil
  then show ?case by simp
next
  case (Cons e h)
  obtain k v where e: "e = (k, v)" by (cases e)
  consider "m = k" | "m < k" | "k < m" by linarith
  then show ?case
  proof cases
    case 1 then show ?thesis by (simp add: e)
  next
    case 2 then show ?thesis by (simp add: e)
  next
    case 3 then show ?thesis using Cons.IH by (simp add: e insert_commute)
  qed
qed

lemma sorted_hist_increment:
  "sorted_wrt (<) (map fst h) \<Longrightarrow> sorted_wrt (<) (map fst (hist_increment m h))"
proof (induction h)
  case Nil
  then show ?case by simp
next
  case (Cons e h)
  obtain k v where e: "e = (k, v)" by (cases e)
  have s: "sorted_wrt (<) (map fst h)" "\<forall>x\<in>set h. k < fst x"
    using Cons.prems by (auto simp: e)
  show ?case
  proof (cases "m = k \<or> m < k")
    case True
    then show ?thesis using Cons.prems by (auto simp: e)
  next
    case False
    have "\<forall>x\<in>fst ` set (hist_increment m h). k < x"
      unfolding keys_hist_increment using False s(2) by auto
    then show ?thesis using False Cons.IH [OF s(1)] by (auto simp: e)
  qed
qed

lemma positive_hist_increment:
  "list_all (\<lambda>(k, v). 0 < v) h \<Longrightarrow> list_all (\<lambda>(k, v). 0 < v) (hist_increment m h)"
  by (induction h) auto

lemma hist_ok_increment: "hist_ok h \<Longrightarrow> hist_ok (hist_increment m h)"
  by (simp add: hist_ok_def sorted_hist_increment positive_hist_increment)

lemma hist_ok_record_note: "hist_ok h \<Longrightarrow> hist_ok (record_note m h)"
  by (simp add: record_note_def hist_ok_increment)

lemma hist_ok_fold: "hist_ok h \<Longrightarrow> hist_ok (fold record_note ms h)"
  by (induction ms arbitrary: h) (simp_all add: hist_ok_record_note)

lemma count_of_hist_increment:
  "sorted_wrt (<) (map fst h) \<Longrightarrow>
   count_of (hist_increment m h) k = count_of h k + (if k = m then 1 else 0)"
proof (induction h)
  case Nil
  then show ?case by (simp add: count_of_def)
next
  case (Cons e h)
  obtain k' v where e: "e = (k', v)" by (cases e)
  have s: "sorted_wrt (<) (map fst h)" "\<forall>x\<in>set h. k' < fst x"
    using Cons.prems by (auto simp: e)
  consider "m = k'" | "m < k'" | "k' < m" by linarith
  then show ?case
  proof cases
    case 1
    then show ?thesis by (simp add: e count_of_def)
  next
    case 2
    then have "m \<notin> fst ` set h" using s(2) by auto
    then have "map_of h m = None" by (simp add: map_of_eq_None_iff)
    then show ?thesis using 2 by (simp add: e count_of_def)
  next
    case 3
    then show ?thesis using Cons.IH [OF s(1)] by (cases "k = m") (simp_all add: e count_of_def)
  qed
qed

lemma count_of_fold:
  "hist_ok h \<Longrightarrow>
   count_of (fold record_note ms h) k =
     count_of h k + (if 0 \<le> k \<and> k < 128 then int (count_list ms k) else 0)"
proof (induction ms arbitrary: h)
  case Nil
  then show ?case by simp
next
  case (Cons m ms)
  have ok: "hist_ok (record_note m h)" by (rule hist_ok_record_note [OF Cons.prems])
  have r: "count_of (record_note m h) k =
      count_of h k + (if 0 \<le> k \<and> k < 128 \<and> k = m then 1 else 0)"
    using Cons.prems by (auto simp: record_note_def hist_ok_def count_of_hist_increment)
  have "count_of (fold record_note ms (record_note m h)) k =
      count_of h k + (if 0 \<le> k \<and> k < 128 \<and> k = m then 1 else 0)
        + (if 0 \<le> k \<and> k < 128 then int (count_list ms k) else 0)"
    using Cons.IH [OF ok] unfolding r .
  then show ?case by (cases "0 \<le> k \<and> k < 128"; cases "k = m") auto
qed

lemma most_common_general:
  assumes "sorted_wrt (<) (map fst h)"
  shows "if list_all (\<lambda>(k, v). v \<le> maxCount) h
     then most_common h maxCount cur = cur
     else \<exists>count. (most_common h maxCount cur, count) \<in> set h \<and> maxCount < count \<and>
            list_all (\<lambda>(k, v). v \<le> count \<and> (v = count \<longrightarrow> most_common h maxCount cur \<le> k)) h"
  using assms
proof (induction h arbitrary: maxCount cur)
  case Nil
  then show ?case by simp
next
  case (Cons e h)
  obtain k v where e: "e = (k, v)" by (cases e)
  have s: "sorted_wrt (<) (map fst h)" and lt: "\<And>k' v'. (k', v') \<in> set h \<Longrightarrow> k < k'"
    using Cons.prems by (auto simp: e)
  show ?case
  proof (cases "v > maxCount")
    case True
    have r: "most_common (e # h) maxCount cur = most_common h v k" using True by (simp add: e)
    note ih = Cons.IH [OF s, of v k]
    show ?thesis
    proof (cases "list_all (\<lambda>(k, v'). v' \<le> v) h")
      case T: True
      then have "most_common h v k = k" using ih by simp
      moreover have "list_all (\<lambda>(k', v'). v' \<le> v \<and> (v' = v \<longrightarrow> k \<le> k')) h"
        using T lt by (fastforce simp: list_all_iff intro: less_imp_le)
      ultimately show ?thesis using True r by (auto simp: e intro!: exI [of _ v])
    next
      case False
      with ih obtain count where c: "(most_common h v k, count) \<in> set h" "v < count"
        "list_all (\<lambda>(k', v'). v' \<le> count \<and> (v' = count \<longrightarrow> most_common h v k \<le> k')) h"
        by auto
      then show ?thesis using True r by (auto simp: e intro!: exI [of _ count])
    qed
  next
    case False
    have r: "most_common (e # h) maxCount cur = most_common h maxCount cur"
      using False by (simp add: e)
    note ih = Cons.IH [OF s, of maxCount cur]
    show ?thesis
    proof (cases "list_all (\<lambda>(k, v). v \<le> maxCount) h")
      case True
      then show ?thesis using ih False r by (simp add: e)
    next
      case F: False
      with ih obtain count where c: "(most_common h maxCount cur, count) \<in> set h"
        "maxCount < count"
        "list_all (\<lambda>(k', v'). v' \<le> count \<and> (v' = count \<longrightarrow> most_common h maxCount cur \<le> k')) h"
        by auto
      then show ?thesis using False F r by (auto simp: e intro!: exI [of _ count])
    qed
  qed
qed

lemma most_common_correct:
  assumes "hist_ok h"
  shows "if h = [] then most_common h 0 cur = cur else most_common_of h (most_common h 0 cur)"
proof (cases h)
  case Nil
  then show ?thesis by simp
next
  case (Cons e h')
  have "\<not> list_all (\<lambda>(k, v). v \<le> 0) h"
    using assms Cons by (auto simp: hist_ok_def)
  moreover have "sorted_wrt (<) (map fst h)" using assms by (simp add: hist_ok_def)
  ultimately obtain count where "(most_common h 0 cur, count) \<in> set h"
    "list_all (\<lambda>(k, v). v \<le> count \<and> (v = count \<longrightarrow> most_common h 0 cur \<le> k)) h"
    using most_common_general [of h 0 cur] by auto
  then show ?thesis using Cons by (auto simp: most_common_of_def)
qed

lemma read_chunk_ok:
  assumes "tb \<noteq> []" "0 \<le> base" "nat base + i + k \<le> length (tb ! 0)" "i + k \<le> length cd"
  shows "read_chunk tb base i k cd =
    Inr (take i cd @ take k (drop (nat base + i) (tb ! 0)) @ drop (i + k) cd)"
  using assms(3,4)
proof (induction k arbitrary: i cd)
  case 0
  then show ?case by simp
next
  case (Suc k)
  have lt: "nat base + i < length (tb ! 0)" using Suc.prems by simp
  have g: "getSample tb 0 (base + int i) = Inr (tb ! 0 ! (nat base + i))"
    using assms(1,2) lt by (simp add: getSample_def getNumChannels_def nat_add_distrib)
  have "read_chunk tb base (Suc i) k (cd[i := tb ! 0 ! (nat base + i)]) =
      Inr (take (Suc i) (cd[i := tb ! 0 ! (nat base + i)])
           @ take k (drop (nat base + Suc i) (tb ! 0))
           @ drop (Suc i + k) (cd[i := tb ! 0 ! (nat base + i)]))"
    using Suc.prems by (intro Suc.IH) simp_all
  moreover have "take (Suc k) (drop (nat base + i) (tb ! 0))
      = (tb ! 0 ! (nat base + i)) # take k (drop (nat base + Suc i) (tb ! 0))"
    using lt by (simp add: Cons_nth_drop_Suc [symmetric])
  moreover have "take (Suc i) (cd[i := tb ! 0 ! (nat base + i)]) = take i cd @ [tb ! 0 ! (nat base + i)]"
    using Suc.prems(2) by (simp add: take_Suc_conv_app_nth)
  ultimately show ?case using g by simp
qed

lemma read_chunk_whole_ok:
  assumes "tb \<noteq> []" "0 \<le> base" "nat base + chunkSize \<le> length (tb ! 0)"
  shows "read_chunk tb base 0 chunkSize (replicate chunkSize (Fin 0)) =
    Inr (take chunkSize (drop (nat base) (tb ! 0)))"
  using read_chunk_ok [OF assms(1,2), of 0 chunkSize "replicate chunkSize (Fin 0)"] assms(3)
  by simp

text \<open>
  Claim C5.  When \<open>detectPitch\<close> of the processor returns, the two bounds of the window
  are \<open>s = roundToInt (startPosition * N)\<close> and \<open>e = roundToInt (endPosition * N)\<close>, the
  products being products of \<open>float\<close>s, and it has analysed \<open>floor((e - s) / 2048)\<close> chunks
  (no chunk when \<open>e - s\<close> is negative): chunk \<open>c\<close> is the 2048 samples of channel 0 from
  \<open>s + 2048 * c\<close>, and what is left after the last full chunk is not read.  The note of
  each chunk is the one the detector computes for it, whatever the detector did before.
  The histogram counts each note in \<open>[0, 128)\<close> once more and no other note, and
  \<open>mostCommonNote\<close> is afterwards a key of maximal count, the lowest one when several have
  it; it is unchanged when the histogram is empty.
\<close>

theorem detectPitch_histogram:
  assumes "detectPitch p = Inr p'" and "getNumSamples (trimmedBuffer p) \<noteq> 0"
    and "pitchDetector p = Some pd" and "hist_ok (noteHistogram p)"
  shows "\<exists>s e ms.
    roundToInt (fmulf (startPosition p) (float_of_int (getNumSamples (trimmedBuffer p)))) = Inr s \<and>
    roundToInt (fmulf (endPosition p) (float_of_int (getNumSamples (trimmedBuffer p)))) = Inr e \<and>
    length ms = nat (e - s) div chunkSize \<and>
    (\<forall>c<length ms. note_of_chunk pd (chunk_at (trimmedBuffer p) s c) = Inr (ms ! c)) \<and>
    noteHistogram p' = fold record_note ms (noteHistogram p) \<and>
    (\<forall>k. count_of (noteHistogram p') k =
          count_of (noteHistogram p) k
          + (if 0 \<le> k \<and> k < 128 then int (count_list ms k) else 0)) \<and>
    (if noteHistogram p' = [] then mostCommonNote p' = mostCommonNote p
     else most_common_of (noteHistogram p') (mostCommonNote p'))"
proof -
  let ?k = "\<lambda>s e. nat ((e - s) sdiv int chunkSize)"
  from assms(1,2,3) obtain s e pdo h' where
    s: "roundToInt (fmulf (startPosition p) (float_of_int (getNumSamples (trimmedBuffer p)))) = Inr s"
    and e: "roundToInt (fmulf (endPosition p) (float_of_int (getNumSamples (trimmedBuffer p)))) = Inr e"
    and a: "analyse_chunks (trimmedBuffer p) s 0 (?k s e) (Some pd) (noteHistogram p) = Inr (pdo, h')"
    and p': "p' = p\<lparr>pitchDetector := pdo, noteHistogram := h',
                      mostCommonNote := most_common h' 0 (mostCommonNote p)\<rparr>"
    by (auto simp: detectPitch_def Let_def split: sum.splits prod.splits)
  from analyse_chunks_notes [OF a] obtain ms where ms: "length ms = ?k s e"
    "\<And>i. i < ?k s e \<Longrightarrow> note_of_chunk pd (chunk_at (trimmedBuffer p) s (0 + i)) = Inr (ms ! i)"
    "h' = fold record_note ms (noteHistogram p)"
    by blast
  have k: "?k s e = nat (e - s) div chunkSize"
  proof (cases "0 \<le> e - s")
    case True
    then have "(e - s) sdiv int chunkSize = (e - s) div int chunkSize"
      by (simp add: signed_divide_int_def chunkSize_def sgn_if)
    then show ?thesis using True by (simp add: nat_div_distrib)
  next
    case False
    then have "(e - s) sdiv int chunkSize \<le> 0"
      by (simp add: signed_divide_int_def chunkSize_def sgn_if pos_imp_zdiv_nonneg_iff)
    then show ?thesis using False by simp
  qed
  have ok: "hist_ok h'" unfolding ms(3) by (rule hist_ok_fold [OF assms(4)])
  have c: "count_of h' k = count_of (noteHistogram p) k
          + (if 0 \<le> k \<and> k < 128 then int (count_list ms k) else 0)" for k
    unfolding ms(3) by (rule count_of_fold [OF assms(4)])
  have m: "if h' = [] then most_common h' 0 (mostCommonNote p) = mostCommonNote p
     else most_common_of h' (most_common h' 0 (mostCommonNote p))"
    by (rule most_common_correct [OF ok])
  have f: "noteHistogram p' = h'" "mostCommonNote p' = most_common h' 0 (mostCommonNote p)"
    by (simp_all add: p')
  have m': "if noteHistogram p' = [] then mostCommonNote p' = mostCommonNote p
     else most_common_of (noteHistogram p') (mostCommonNote p')"
    unfolding f by (rule m)
  have c': "\<forall>k. count_of (noteHistogram p') k = count_of (noteHistogram p) k
          + (if 0 \<le> k \<and> k < 128 then int (count_list ms k) else 0)"
    unfolding f using c by blast
  have n: "\<forall>c<length ms. note_of_chunk pd (chunk_at (trimmedBuffer p) s c) = Inr (ms ! c)"
    using ms(1,2) by simp
  have l: "length ms = nat (e - s) div chunkSize" using ms(1) k by simp
  have h: "noteHistogram p' = fold record_note ms (noteHistogram p)" using f(1) ms(3) by simp
  show ?thesis
    by (rule exI [of _ s], rule exI [of _ e], rule exI [of _ ms]) (intro conjI s e l n h c' m')
qed

lemma period_two_pitch:
  "detectPitch_pd \<lparr>sampleRate = sr, bufferSize = bs, yinBuffer = [a, b, c, d]\<rparr>
     (Fin 1 # Fin (- 1) # Fin 1 # Fin (- 1) # Fin 1 # Fin (- 1) # Fin 1 # rest) sz =
   Inr (Fin (sr / (19 / 10)),
        \<lparr>sampleRate = sr, bufferSize = bs, yinBuffer = [Fin 1, Fin 1, Fin 0, Fin (3 / 2)]\<rparr>)"
  by (simp add: detectPitch_pd_def Let_def fsub_def eval_nat_numeral)

lemma note_of_440: "midiNoteFromFrequency (Fin 440) = Inr 69"
  by (simp add: midiNoteFromFrequency_def roundHalfEven_def)

lemma len_w: "length w_chunk = 2048" by (simp add: w_chunk_def)

lemma w_first:
  "read_chunk [w_chunk @ replicate 2048 (Fin 0)] 0 0 chunkSize (replicate chunkSize (Fin 0)) = Inr w_chunk"
  using read_chunk_whole_ok [of "[w_chunk @ replicate 2048 (Fin 0)]" 0]
  by (simp add: len_w chunkSize_def)

lemma w_second:
  "read_chunk [w_chunk @ replicate 2048 (Fin 0)] (int chunkSize) 0 chunkSize
     (replicate chunkSize (Fin 0)) = Inr (replicate 2048 (Fin 0))"
  using read_chunk_whole_ok [of "[w_chunk @ replicate 2048 (Fin 0)]" "int chunkSize"]
  by (simp add: len_w chunkSize_def)

lemma w_analyse:
  "analyse_chunks [w_chunk @ replicate 2048 (Fin 0)] 0 0 (Suc (Suc 0))
     (Some \<lparr>sampleRate = 836, bufferSize = 8, yinBuffer = replicate 4 (Fin 0)\<rparr>) [(60, 1)]
   = Inr (Some \<lparr>sampleRate = 836, bufferSize = 8, yinBuffer = [Fin 1, NaN, NaN, NaN]\<rparr>,
          [(60, 1), (69, 1)])"
proof -
  have r: "replicate 4 (Fin 0) = [Fin 0, Fin 0, Fin 0, Fin 0 :: fl]" by (simp add: eval_nat_numeral)
  have d1: "detectPitch_pd \<lparr>sampleRate = 836, bufferSize = 8, yinBuffer = replicate 4 (Fin 0)\<rparr>
      w_chunk (int chunkSize) =
    Inr (Fin 440, \<lparr>sampleRate = 836, bufferSize = 8, yinBuffer = [Fin 1, Fin 1, Fin 0, Fin (3 / 2)]\<rparr>)"
    unfolding r w_chunk_def period_two_pitch by simp
  have d2: "detectPitch_pd \<lparr>sampleRate = 836, bufferSize = 8, yinBuffer = [Fin 1, Fin 1, Fin 0, Fin (3 / 2)]\<rparr>
      (replicate 2048 (Fin 0)) (int chunkSize) =
    Inr (Fin 0, \<lparr>sampleRate = 836, bufferSize = 8, yinBuffer = [Fin 1, NaN, NaN, NaN]\<rparr>)"
    using detectPitch_pd_silence [of "\<lparr>sampleRate = 836, bufferSize = 8, yinBuffer = [Fin 1, Fin 1, Fin 0, Fin (3 / 2)]\<rparr>" 2048 "int chunkSize"]
    by (simp add: eval_nat_numeral)
  have m0: "midiNoteFromFrequency (Fin 0) = Inr (- 1)" by (simp add: midiNoteFromFrequency_def)
  show ?thesis
    unfolding analyse_chunks.simps
    by (simp add: w_first w_second d1 d2 note_of_440 m0 del: replicate.simps)
qed

lemma w_detectPitch: "detectPitch w_processor = Inr w_result"
proof -
  have n: "getNumSamples (trimmedBuffer w_processor) = 4096"
    by (simp add: w_processor_def getNumSamples_def len_w)
  have s: "roundToInt (fmulf (startPosition w_processor) (float_of_int 4096)) = Inr 0"
    "roundToInt (fmulf (endPosition w_processor) (float_of_int 4096)) = Inr 4096"
    using position_zero [of 4096] position_one [of 4096]
    by (simp_all add: w_processor_def BufferedRecorderSamplerProcessor_new_def)
  have k: "nat ((4096 - 0) sdiv int chunkSize) = Suc (Suc 0)"
    by (simp add: chunkSize_def signed_divide_int_def)
  have a: "analyse_chunks (trimmedBuffer w_processor) 0 0 (Suc (Suc 0))
      (pitchDetector w_processor) (noteHistogram w_processor)
    = Inr (Some \<lparr>sampleRate = 836, bufferSize = 8, yinBuffer = [Fin 1, NaN, NaN, NaN]\<rparr>,
          [(60, 1), (69, 1)])"
    using w_analyse by (simp add: w_processor_def)
  have m: "mostCommonNote w_processor = 60"
    by (simp add: w_processor_def BufferedRecorderSamplerProcessor_new_def)
  show ?thesis
    unfolding detectPitch_def n Let_def s sum.case k a prod.case m
    by (simp add: w_result_def)
qed

theorem detectPitch_histogram_witness:
  "detectPitch w_processor = Inr w_result \<and>
   noteHistogram w_processor = [(60, 1)] \<and>
   noteHistogram w_result = [(60, 1), (69, 1)] \<and>
   mostCommonNote w_result = 60 \<and>
   most_common_of (noteHistogram w_result) (mostCommonNote w_result)"
proof -
  have h: "getNumSamples (trimmedBuffer w_processor) \<noteq> 0"
    "pitchDetector w_processor = Some \<lparr>sampleRate = 836, bufferSize = 8, yinBuffer = replicate 4 (Fin 0)\<rparr>"
    "hist_ok (noteHistogram w_processor)"
    by (simp_all add: w_processor_def getNumSamples_def len_w hist_ok_def)
  from detectPitch_histogram [OF w_detectPitch h]
  have "most_common_of (noteHistogram w_result) (mostCommonNote w_result)"
    by (auto simp: w_result_def)
  then show ?thesis
    using w_detectPitch by (simp add: w_result_def w_processor_def)
qed

section \<open>The most common note is a MIDI note\<close>

lemma keys_in_range_increment:
  "0 \<le> m \<Longrightarrow> m < 128 \<Longrightarrow> list_all (\<lambda>(k, v). 0 \<le> k \<and> k < 128) h \<Longrightarrow>
   list_all (\<lambda>(k, v). 0 \<le> k \<and> k < (128::int)) (hist_increment m h)"
  by (induction h) auto

lemma keys_in_range_analyse:
  "analyse_chunks tb s c k pdo h = Inr (pdo', h') \<Longrightarrow>
   list_all (\<lambda>(k, v). 0 \<le> k \<and> k < 128) h \<Longrightarrow> list_all (\<lambda>(k, v). 0 \<le> k \<and> k < 128) h'"
proof (induction k arbitrary: c pdo h)
  case 0
  then show ?case by simp
next
  case (Suc k)
  from Suc.prems(1) obtain pd1 m where
    rest: "analyse_chunks tb s (Suc c) k (Some pd1)
             (if 0 \<le> m \<and> m < 128 then hist_increment m h else h) = Inr (pdo', h')"
    by (auto split: sum.splits option.splits prod.splits)
  have "list_all (\<lambda>(k, v). 0 \<le> k \<and> k < 128) (if 0 \<le> m \<and> m < 128 then hist_increment m h else h)"
    using Suc.prems(2) by (simp add: keys_in_range_increment)
  then show ?case by (rule Suc.IH [OF rest])
qed

lemma most_common_member: "most_common h maxCount cur \<in> insert cur (fst ` set h)"
proof (induction h arbitrary: maxCount cur)
  case Nil
  then show ?case by simp
next
  case (Cons e h)
  obtain k v where e: "e = (k, v)" by (cases e)
  show ?case
  proof (cases "v > maxCount")
    case True
    then show ?thesis using Cons.IH [of v k] by (auto simp: e)
  next
    case False
    then show ?thesis using Cons.IH [of maxCount cur] by (auto simp: e)
  qed
qed

lemma most_common_in_range:
  assumes "list_all (\<lambda>(k, v). 0 \<le> k \<and> k < 128) h" "0 \<le> cur" "cur < 128"
  shows "0 \<le> most_common h maxCount cur \<and> most_common h maxCount cur < 128"
  using most_common_member [of h maxCount cur] assms by (auto simp: list_all_iff)

lemma detectPitch_in_range:
  assumes "detectPitch p = Inr p'" "notes_in_range p"
  shows "notes_in_range p'"
proof (cases "getNumSamples (trimmedBuffer p) = 0")
  case True
  then show ?thesis using assms by (simp add: detectPitch_def)
next
  case False
  with assms(1) obtain s k pdo h' where
    a: "analyse_chunks (trimmedBuffer p) s 0 k (pitchDetector p) (noteHistogram p) = Inr (pdo, h')"
    and p': "p' = p\<lparr>pitchDetector := pdo, noteHistogram := h',
                      mostCommonNote := most_common h' 0 (mostCommonNote p)\<rparr>"
    by (auto simp: detectPitch_def Let_def split: sum.splits prod.splits)
  have h: "list_all (\<lambda>(k, v). 0 \<le> k \<and> k < 128) h'"
    using keys_in_range_analyse [OF a] assms(2) by (simp add: notes_in_range_def)
  show ?thesis
    using h most_common_in_range [OF h, of "mostCommonNote p" 0] assms(2)
    by (simp add: notes_in_range_def p')
qed

lemma enterTrimMode_in_range:
  "enterTrimMode p = Inr p' \<Longrightarrow> notes_in_range p \<Longrightarrow> notes_in_range p'"
  by (auto simp: enterTrimMode_def notes_in_range_def Let_def split: sum.splits)

lemma enterSamplerMode_in_range:
  "enterSamplerMode p = Inr p' \<Longrightarrow> notes_in_range p \<Longrightarrow> notes_in_range p'"
  by (auto simp: enterSamplerMode_def notes_in_range_def Let_def split: sum.splits)

lemma previewTrimmedSample_in_range:
  assumes "previewTrimmedSample p = Inr p'" "notes_in_range p"
  shows "notes_in_range p'"
proof -
  from assms(1) obtain s where
    "detectPitch (p\<lparr>isPreviewActive := True, previewPosition := s\<rparr>) = Inr p'"
    by (auto simp: previewTrimmedSample_def Let_def split: sum.splits)
  moreover have "notes_in_range (p\<lparr>isPreviewActive := True, previewPosition := s\<rparr>)"
    using assms(2) by (simp add: notes_in_range_def)
  ultimately show ?thesis by (rule detectPitch_in_range)
qed

lemma prepareToPlay_in_range:
  "prepareToPlay sr n p = Inr p' \<Longrightarrow> notes_in_range p \<Longrightarrow> notes_in_range p'"
  by (auto simp: prepareToPlay_def notes_in_range_def split: sum.splits)

lemma processBlock_in_range:
  "processBlock R p b m = Inr (p', b') \<Longrightarrow> notes_in_range p \<Longrightarrow> notes_in_range p'"
  by (auto simp: processBlock_def notes_in_range_def Let_def
      split: sum.splits if_splits prod.splits)

lemma buttonClicked_in_range:
  "buttonClicked b p = Inr p' \<Longrightarrow> notes_in_range p \<Longrightarrow> notes_in_range p'"
proof (cases b)
  case Buffer10sButton
  assume a: "buttonClicked b p = Inr p'" "notes_in_range p"
  have "notes_in_range (setBufferDuration 10 p)"
    using a(2) by (simp add: notes_in_range_def setBufferDuration_def)
  then show ?thesis using a(1) Buffer10sButton
    by (auto simp: buttonClicked_def intro: enterTrimMode_in_range)
next
  case Buffer30sButton
  assume a: "buttonClicked b p = Inr p'" "notes_in_range p"
  have "notes_in_range (setBufferDuration 30 p)"
    using a(2) by (simp add: notes_in_range_def setBufferDuration_def)
  then show ?thesis using a(1) Buffer30sButton
    by (auto simp: buttonClicked_def intro: enterTrimMode_in_range)
next
  case Buffer60sButton
  assume a: "buttonClicked b p = Inr p'" "notes_in_range p"
  have "notes_in_range (setBufferDuration 60 p)"
    using a(2) by (simp add: notes_in_range_def setBufferDuration_def)
  then show ?thesis using a(1) Buffer60sButton
    by (auto simp: buttonClicked_def intro: enterTrimMode_in_range)
next
  case PreviewButton
  then show "buttonClicked b p = Inr p' \<Longrightarrow> notes_in_range p \<Longrightarrow> notes_in_range p'"
    by (auto simp: buttonClicked_def intro: previewTrimmedSample_in_range)
next
  case DoneButton
  then show "buttonClicked b p = Inr p' \<Longrightarrow> notes_in_range p \<Longrightarrow> notes_in_range p'"
    by (auto simp: buttonClicked_def intro: enterSamplerMode_in_range)
next
  case OtherButton
  then show "buttonClicked b p = Inr p' \<Longrightarrow> notes_in_range p \<Longrightarrow> notes_in_range p'"
    by (auto simp: buttonClicked_def)
qed

lemma sliderValueChanged_in_range:
  "notes_in_range p \<Longrightarrow> notes_in_range (sliderValueChanged s x p)"
  by (cases s)
     (simp_all add: sliderValueChanged_def notes_in_range_def setStartPosition_def
        setEndPosition_def Let_def)

lemma step_in_range:
  assumes "step R a p = Inr p'" "notes_in_range p"
  shows "notes_in_range p'"
proof (cases a)
  case (SetPlayConfigDetails i out sr)
  then show ?thesis using assms by (auto simp: notes_in_range_def setPlayConfigDetails_def)
next
  case (PrepareToPlay sr n)
  then show ?thesis using assms by (auto intro: prepareToPlay_in_range)
next
  case (ProcessBlock b m)
  then show ?thesis using assms by (auto split: sum.splits prod.splits intro: processBlock_in_range)
next
  case (SetBufferDuration s)
  then show ?thesis using assms by (auto simp: notes_in_range_def setBufferDuration_def)
next
  case EnterTrimMode
  then show ?thesis using assms by (auto intro: enterTrimMode_in_range)
next
  case EnterSamplerMode
  then show ?thesis using assms by (auto intro: enterSamplerMode_in_range)
next
  case (SetStartPosition x)
  then show ?thesis using assms by (auto simp: notes_in_range_def setStartPosition_def)
next
  case (SetEndPosition x)
  then show ?thesis using assms by (auto simp: notes_in_range_def setEndPosition_def)
next
  case PreviewTrimmedSample
  then show ?thesis using assms by (auto intro: previewTrimmedSample_in_range)
next
  case StopPreview
  then show ?thesis using assms by (auto simp: notes_in_range_def stopPreview_def)
next
  case DetectPitch
  then show ?thesis using assms by (auto intro: detectPitch_in_range)
next
  case (ButtonClicked b)
  then show ?thesis using assms by (auto intro: buttonClicked_in_range)
next
  case (SliderValueChanged s x)
  then show ?thesis using assms by (auto intro: sliderValueChanged_in_range)
qed

lemma run_in_range:
  "run R p as = Inr p' \<Longrightarrow> notes_in_range p \<Longrightarrow> notes_in_range p'"
proof (induction as arbitrary: p)
  case Nil
  then show ?case by simp
next
  case (Cons a as)
  from Cons.prems(1) obtain p1 where s: "step R a p = Inr p1" and r: "run R p1 as = Inr p'"
    by (auto split: sum.splits)
  show ?case by (rule Cons.IH [OF r step_in_range [OF s Cons.prems(2)]])
qed

lemma new_in_range: "notes_in_range (BufferedRecorderSamplerProcessor_new g t)"
  by (simp add: notes_in_range_def BufferedRecorderSamplerProcessor_new_def)

lemma detectPitch_keeps_note:
  "detectPitch q = Inr q' \<Longrightarrow> noteHistogram q' = [] \<Longrightarrow> mostCommonNote q' = mostCommonNote q"
  by (auto simp: detectPitch_def Let_def split: sum.splits prod.splits if_splits)

text \<open>
  Claim C10.  After any sequence of calls on a fresh processor that returns,
  \<open>getMostCommonNote()\<close> is in \<open>[0, 128)\<close>.  It is \<open>60\<close> at first and \<open>detectPitch\<close>
  alone assigns it, a key of the histogram, whose keys are in \<open>[0, 128)\<close>.  A
  \<open>detectPitch\<close> that leaves the histogram empty leaves the note as it was.
\<close>

theorem most_common_note_in_range:
  assumes "run R (BufferedRecorderSamplerProcessor_new g t) as = Inr p"
  shows "0 \<le> getMostCommonNote p \<and> getMostCommonNote p < 128 \<and>
    getMostCommonNote (BufferedRecorderSamplerProcessor_new g t) = 60 \<and>
    (\<forall>p'. detectPitch p = Inr p' \<longrightarrow> noteHistogram p' = [] \<longrightarrow>
          getMostCommonNote p' = getMostCommonNote p)"
  using run_in_range [OF assms new_in_range] detectPitch_keeps_note [of p]
  by (simp add: notes_in_range_def getMostCommonNote_def BufferedRecorderSamplerProcessor_new_def)

lemma analyse_chunks_silence:
  assumes tb: "tb \<noteq> []" "tb ! 0 = replicate L (Fin 0)"
    and s: "0 \<le> s" "nat s + (c + k) * chunkSize \<le> L"
    and pd: "1 \<le> length (yinBuffer pd)" "2 * length (yinBuffer pd) - 1 \<le> chunkSize"
  shows "analyse_chunks tb s c k (Some pd) h =
    Inr (Some (if k = 0 then pd
               else pd\<lparr>yinBuffer := Fin 1 # replicate (length (yinBuffer pd) - 1) NaN\<rparr>), h)"
  using s(2) pd
proof (induction k arbitrary: c pd)
  case 0
  then show ?case by simp
next
  case (Suc k)
  let ?base = "s + int c * int chunkSize"
  let ?Y = "Fin 1 # replicate (length (yinBuffer pd) - 1) NaN"
  let ?pd1 = "pd\<lparr>yinBuffer := ?Y\<rparr>"
  have nb: "nat ?base = nat s + c * chunkSize"
    using s(1) by (simp add: nat_add_distrib nat_mult_distrib)
  have b: "0 \<le> ?base" using s(1) by simp
  have le: "nat ?base + chunkSize \<le> L"
    using Suc.prems(1) unfolding nb by (simp add: algebra_simps)
  have le': "nat ?base + chunkSize \<le> length (tb ! 0)" using le tb(2) by simp
  have rc: "read_chunk tb ?base 0 chunkSize (replicate chunkSize (Fin 0)) =
      Inr (replicate chunkSize (Fin 0))"
  proof -
    have "chunkSize \<le> L - nat ?base" using le by linarith
    then have "take chunkSize (drop (nat ?base) (replicate L (Fin 0))) = replicate chunkSize (Fin 0)"
      by (simp add: min_absorb1)
    then show ?thesis
      unfolding read_chunk_whole_ok [OF tb(1) b le'] tb(2) by simp
  qed
  have dp: "detectPitch_pd pd (replicate chunkSize (Fin 0)) (int chunkSize) = Inr (Fin 0, ?pd1)"
    using detectPitch_pd_silence [OF Suc.prems(2,3)] by simp
  have m0: "midiNoteFromFrequency (Fin 0) = Inr (- 1)" by (simp add: midiNoteFromFrequency_def)
  have l1: "length (yinBuffer ?pd1) = length (yinBuffer pd)" using Suc.prems(2) by simp
  have "analyse_chunks tb s (Suc c) k (Some ?pd1) h =
    Inr (Some (if k = 0 then ?pd1
               else ?pd1\<lparr>yinBuffer := Fin 1 # replicate (length (yinBuffer ?pd1) - 1) NaN\<rparr>), h)"
  proof (rule Suc.IH)
    show "nat s + (Suc c + k) * chunkSize \<le> L" using Suc.prems(1) by simp
    show "1 \<le> length (yinBuffer ?pd1)" using Suc.prems(2) unfolding l1 .
    show "2 * length (yinBuffer ?pd1) - 1 \<le> chunkSize" using Suc.prems(3) unfolding l1 .
  qed
  then have "analyse_chunks tb s (Suc c) k (Some ?pd1) h = Inr (Some ?pd1, h)"
    unfolding l1 by simp
  then show ?case
    by (simp add: rc dp m0)
qed

lemma detectPitch_silence:
  assumes tb: "trimmedBuffer p \<noteq> []" "trimmedBuffer p ! 0 = replicate L (Fin 0)" "0 < L"
    and r: "roundToInt (fmulf (startPosition p) (float_of_int (int L))) = Inr s"
      "roundToInt (fmulf (endPosition p) (float_of_int (int L))) = Inr e"
    and s: "0 \<le> s" "e \<le> int L" "0 < (e - s) sdiv int chunkSize"
    and pd: "pitchDetector p = Some pd" "1 \<le> length (yinBuffer pd)"
      "2 * length (yinBuffer pd) - 1 \<le> chunkSize"
  shows "detectPitch p =
    Inr (p\<lparr>pitchDetector := Some (pd\<lparr>yinBuffer := Fin 1 # replicate (length (yinBuffer pd) - 1) NaN\<rparr>),
           noteHistogram := noteHistogram p,
           mostCommonNote := most_common (noteHistogram p) 0 (mostCommonNote p)\<rparr>)"
proof -
  let ?k = "nat ((e - s) sdiv int chunkSize)"
  have n: "getNumSamples (trimmedBuffer p) = int L"
    using tb(1,2) by (cases "trimmedBuffer p") (simp_all add: getNumSamples_def)
  have d: "(e - s) sdiv int chunkSize = (e - s) div int chunkSize" "0 \<le> e - s"
    using s(3) by (auto simp: signed_divide_int_def chunkSize_def sgn_if split: if_splits)
  have "int ?k * int chunkSize \<le> e - s"
    using d s(3) by (simp add: chunkSize_def) 
  then have "int (nat s + (0 + ?k) * chunkSize) \<le> int L"
    using s(1,2) by simp
  then have le: "nat s + (0 + ?k) * chunkSize \<le> L" by linarith
  have k0: "?k \<noteq> 0" using s(3) by simp
  have a: "analyse_chunks (trimmedBuffer p) s 0 ?k (Some pd) (noteHistogram p) =
    Inr (Some (pd\<lparr>yinBuffer := Fin 1 # replicate (length (yinBuffer pd) - 1) NaN\<rparr>), noteHistogram p)"
    using analyse_chunks_silence [OF tb(1,2) s(1) le pd(2,3), of "noteHistogram p"] k0 by simp
  show ?thesis
    using tb(3) by (simp add: detectPitch_def n Let_def r pd(1) a)
qed

lemma silent_memory_simps:
  "silent_memory \<noteq> []" "silent_memory ! 0 = replicate 2880000 (Fin 0)"
  "silent_memory ! 1 = replicate 2880000 (Fin 0)" "length silent_memory = 2"
  by (simp_all add: silent_memory_def)

lemma w_run_silence:
  "run R (BufferedRecorderSamplerProcessor_new silent_memory silent_memory)
     [SetPlayConfigDetails 2 2 48000, PrepareToPlay 48000 512,
      SliderValueChanged EndSlider (1 / 2), DetectPitch]
   = Inr ((BufferedRecorderSamplerProcessor_new silent_memory silent_memory)
       \<lparr>currentSampleRate := 48000,
        pitchDetector := Some \<lparr>sampleRate = 48000, bufferSize = 512,
                                 yinBuffer = Fin 1 # replicate 255 NaN\<rparr>,
        sampler := \<lparr>voices = replicate 16 BufferedSamplerVoice_new, sounds = [],
                     playbackSampleRate = 48000\<rparr>,
        endPosition := Fin (1 / 2)\<rparr>)"
proof -
  let ?p0 = "BufferedRecorderSamplerProcessor_new silent_memory silent_memory"
  let ?pd = "\<lparr>sampleRate = 48000, bufferSize = 512, yinBuffer = replicate 256 (Fin 0)\<rparr>"
  let ?p1 = "?p0\<lparr>currentSampleRate := 48000\<rparr>"
  let ?p2 = "?p0\<lparr>currentSampleRate := 48000, pitchDetector := Some ?pd,
        sampler := \<lparr>voices = replicate 16 BufferedSamplerVoice_new, sounds = [],
                     playbackSampleRate = 48000\<rparr>\<rparr>"
  let ?p3 = "?p0\<lparr>currentSampleRate := 48000, pitchDetector := Some ?pd,
        sampler := \<lparr>voices = replicate 16 BufferedSamplerVoice_new, sounds = [],
                     playbackSampleRate = 48000\<rparr>,
        endPosition := Fin (1 / 2)\<rparr>"
  let ?p4 = "?p0\<lparr>currentSampleRate := 48000,
        pitchDetector := Some \<lparr>sampleRate = 48000, bufferSize = 512,
                                 yinBuffer = Fin 1 # replicate 255 NaN\<rparr>,
        sampler := \<lparr>voices = replicate 16 BufferedSamplerVoice_new, sounds = [],
                     playbackSampleRate = 48000\<rparr>,
        endPosition := Fin (1 / 2)\<rparr>"
  have pdn: "PitchDetector_new 48000 512 = Inr ?pd"
    by (simp add: PitchDetector_new_def signed_divide_int_def)
  have s1: "step R (SetPlayConfigDetails 2 2 48000) ?p0 = Inr ?p1"
    by (simp add: setPlayConfigDetails_def BufferedRecorderSamplerProcessor_new_def)
  have s2: "step R (PrepareToPlay 48000 512) ?p1 = Inr ?p2"
    by (simp add: prepareToPlay_def pdn)
  have s3: "step R (SliderValueChanged EndSlider (1 / 2)) ?p2 = Inr ?p3"
    by (simp add: sliderValueChanged_def setEndPosition_def getEndPosition_def
        getStartPosition_def Let_def BufferedRecorderSamplerProcessor_new_def float32_half)
  have f: "trimmedBuffer ?p3 = silent_memory" "startPosition ?p3 = Fin 0"
    "endPosition ?p3 = Fin (1 / 2)"
    "pitchDetector ?p3 = Some ?pd" "noteHistogram ?p3 = []" "mostCommonNote ?p3 = 60"
    by (simp_all add: BufferedRecorderSamplerProcessor_new_def)
  have "detectPitch ?p3 =
    Inr (?p3\<lparr>pitchDetector := Some (?pd\<lparr>yinBuffer := Fin 1 # replicate (length (yinBuffer ?pd) - 1) NaN\<rparr>),
           noteHistogram := noteHistogram ?p3,
           mostCommonNote := most_common (noteHistogram ?p3) 0 (mostCommonNote ?p3)\<rparr>)"
  proof (rule detectPitch_silence [where L = 2880000 and s = 0 and e = 1440000])
    show "roundToInt (fmulf (startPosition ?p3) (float_of_int (int 2880000))) = Inr 0"
      unfolding f using position_zero [of 2880000] by simp
    have "float32 1440000 = Fin 1440000" using float32_int [of 1440000] by simp
    then show "roundToInt (fmulf (endPosition ?p3) (float_of_int (int 2880000))) = Inr 1440000"
      unfolding f using float_of_int_exact [of 2880000] roundHalfEven_int [of 1440000]
      by (simp add: fmulf_def)
  qed (simp_all add: f silent_memory_simps chunkSize_def signed_divide_int_def)
  then have s4: "step R DetectPitch ?p3 = Inr ?p4"
    by (simp add: f BufferedRecorderSamplerProcessor_new_def)
  show ?thesis
    unfolding run.simps s1 s2 s3 s4 sum.case ..
qed

theorem most_common_note_in_range_witness:
  "\<exists>p. run no_synth (BufferedRecorderSamplerProcessor_new silent_memory silent_memory)
         [SetPlayConfigDetails 2 2 48000, PrepareToPlay 48000 512,
          SliderValueChanged EndSlider (1 / 2), DetectPitch] = Inr p \<and>
       noteHistogram p = [] \<and> getMostCommonNote p = 60 \<and>
       0 \<le> getMostCommonNote p \<and> getMostCommonNote p < 128"
  using most_common_note_in_range [OF w_run_silence [of no_synth]] w_run_silence [of no_synth]
  by (simp add: getMostCommonNote_def BufferedRecorderSamplerProcessor_new_def)

section \<open>Entering the trim mode\<close>


lemma run_append:
  "run R p (as @ bs) = (case run R p as of Inl e \<Rightarrow> Inl e | Inr p' \<Rightarrow> run R p' bs)"
  by (induction as arbitrary: p) (auto split: sum.splits)

lemma processBlock_recording:
  assumes "state p = Recording" "totalNumOutputChannels p \<le> totalNumInputChannels p"
  shows "processBlock R p b m =
    (case write_rb (circularBuffer p) b of
       Inl e \<Rightarrow> Inl e | Inr rb \<Rightarrow> Inr (p\<lparr>circularBuffer := rb\<rparr>, b))"
  using assms by (simp add: processBlock_def Let_def split: sum.splits)

lemma run_recording:
  assumes "state p = Recording" "totalNumOutputChannels p \<le> totalNumInputChannels p"
  shows "run R p (map (\<lambda>b. ProcessBlock b m) bs) =
    (case write_all (circularBuffer p) bs of
       Inl e \<Rightarrow> Inl e | Inr rb \<Rightarrow> Inr (p\<lparr>circularBuffer := rb\<rparr>))"
  using assms
proof (induction bs arbitrary: p)
  case Nil
  then show ?case by simp
next
  case (Cons b bs)
  show ?case
  proof (cases "write_rb (circularBuffer p) b")
    case (Inl e)
    then show ?thesis using Cons.prems by (simp add: processBlock_recording)
  next
    case (Inr rb)
    have "run R (p\<lparr>circularBuffer := rb\<rparr>) (map (\<lambda>b. ProcessBlock b m) bs) =
      (case write_all (circularBuffer (p\<lparr>circularBuffer := rb\<rparr>)) bs of
         Inl e \<Rightarrow> Inl e | Inr rb' \<Rightarrow> Inr (p\<lparr>circularBuffer := rb\<rparr>\<lparr>circularBuffer := rb'\<rparr>))"
      using Cons.prems by (intro Cons.IH) simp_all
    then show ?thesis using Cons.prems Inr
      by (simp add: processBlock_recording split: sum.splits)
  qed
qed

lemma concat_replicate_replicate:
  "concat (replicate n (replicate m x)) = replicate (n * m) x"
  by (induction n) (simp_all add: replicate_add)

lemma newBuffer_rect:
  "0 \<le> nch \<Longrightarrow> 0 \<le> n \<Longrightarrow> newBuffer nch n = Inr (replicate (nat nch) (replicate (nat n) (Fin 0)))"
  by (simp add: newBuffer_def)

lemma rect_replicate: "rect (replicate k (replicate n x))"
  by (cases k) (simp_all add: rect_def getNumSamples_def list_all_iff)

lemma getNumSamples_replicate:
  "0 < k \<Longrightarrow> getNumSamples (replicate k (replicate n x)) = int n"
  by (cases k) (simp_all add: getNumSamples_def)

text \<open>
  What \<open>enterTrimMode\<close> copies: the samples from the one the ring holds longest, the
  one at the write cursor, onwards.
\<close>

lemma enterTrimMode_window:
  assumes ok: "ring_ok (circularBuffer p)"
    and total: "roundHalfEven (bufferDuration p * currentSampleRate p) = int T"
      "int T \<le> size_rb (circularBuffer p)"
  shows "\<exists>tb. enterTrimMode p =
      Inr (p\<lparr>state := Trimming, trimmedBuffer := tb, startPosition := Fin 0, endPosition := Fin 1,
             noteHistogram := []\<rparr>) \<and>
    length tb = 2 \<and>
    (\<forall>c h. c < 2 \<longrightarrow> c < length (buffer (circularBuffer p)) \<longrightarrow>
       window (nat (size_rb (circularBuffer p))) (nat (writePos (circularBuffer p)))
         (buffer (circularBuffer p) ! c) h \<longrightarrow>
       tb ! c = take T (drop (length h - nat (size_rb (circularBuffer p))) h))"
proof -
  let ?rb = "circularBuffer p"
  let ?z = "replicate 2 (replicate T (Fin 0))"
  have nb: "newBuffer 2 (int T - 0) = Inr ?z" using newBuffer_rect [of 2 "int T"] by simp
  have r: "rect ?z" by (rule rect_replicate)
  have n: "getNumSamples ?z = int T" by (simp add: getNumSamples_replicate)
  from copyTo_window [OF ok r, of 0 "int T"] total(2) obtain tb where
    c: "copyTo ?rb ?z 0 (int T) = Inr tb" and l: "length tb = length ?z"
    and w: "\<And>c h. c < length ?z \<Longrightarrow> c < length (buffer ?rb) \<Longrightarrow>
       window (nat (size_rb ?rb)) (nat (writePos ?rb)) (buffer ?rb ! c) h \<Longrightarrow>
       tb ! c = take (nat (min (getNumSamples ?z) (int T - 0)))
                     (drop (length h - nat (size_rb ?rb) + nat 0) h)
                   @ drop (nat (min (getNumSamples ?z) (int T - 0))) (?z ! c)"
    by auto
  have e: "enterTrimMode p =
      Inr (p\<lparr>state := Trimming, trimmedBuffer := tb, startPosition := Fin 0, endPosition := Fin 1,
             noteHistogram := []\<rparr>)"
    using nb c by (simp add: enterTrimMode_def total(1) Let_def)
  have "tb ! c = take T (drop (length h - nat (size_rb ?rb)) h)"
    if "c < 2" "c < length (buffer ?rb)"
      "window (nat (size_rb ?rb)) (nat (writePos ?rb)) (buffer ?rb ! c) h" for c h
    using w [of c h] that by (simp add: n)
  then show ?thesis using e l by (intro exI [of _ tb]) simp
qed


lemma recorded_stream:
  "stream 0 recorded_blocks = replicate 2879488 (Fin 0) @ replicate 512 (Fin 1)"
proof -
  have "map (\<lambda>b. b ! 0) (replicate 5624 zero_block) = replicate 5624 (replicate 512 (Fin 0))"
    by (simp add: zero_block_def)
  then show ?thesis
    by (simp add: stream_def recorded_blocks_def one_block_def concat_replicate_replicate)
qed

lemma record_and_trim:
  assumes g: "initial_memory g"
    and bs: "list_all rect bs" "list_all (\<lambda>b. length b = 2) bs"
    and a: "\<And>q. step R a q = enterTrimMode (setBufferDuration d q)"
    and T: "roundHalfEven (d * 48000) = int T" "T \<le> 2880000"
  shows "\<exists>p. run R (BufferedRecorderSamplerProcessor_new g t)
           ([SetPlayConfigDetails 2 2 48000, PrepareToPlay 48000 512]
            @ map (\<lambda>b. ProcessBlock b m) bs @ [a]) = Inr p \<and>
         state p = Trimming \<and> \<not> isPreviewActive p \<and> startPosition p = Fin 0 \<and> endPosition p = Fin 1 \<and>
         noteHistogram p = [] \<and> mostCommonNote p = 60 \<and>
         totalNumInputChannels p = 2 \<and> totalNumOutputChannels p = 2 \<and>
         length (trimmedBuffer p) = 2 \<and>
         (\<forall>c<2. trimmedBuffer p ! c = take T (drop (length (stream c bs)) (g ! c @ stream c bs)))"
proof -
  let ?p0 = "BufferedRecorderSamplerProcessor_new g t"
  let ?pd = "\<lparr>sampleRate = 48000, bufferSize = 512, yinBuffer = replicate 256 (Fin 0)\<rparr>"
  let ?p2 = "?p0\<lparr>currentSampleRate := 48000, pitchDetector := Some ?pd,
        sampler := \<lparr>voices = replicate 16 BufferedSamplerVoice_new, sounds = [],
                     playbackSampleRate = 48000\<rparr>\<rparr>"
  let ?rb0 = "CircularAudioBuffer_new g 2880000"
  have pdn: "PitchDetector_new 48000 512 = Inr ?pd"
    by (simp add: PitchDetector_new_def signed_divide_int_def)
  have r2: "run R ?p0 [SetPlayConfigDetails 2 2 48000, PrepareToPlay 48000 512] = Inr ?p2"
    by (simp add: setPlayConfigDetails_def prepareToPlay_def pdn
        BufferedRecorderSamplerProcessor_new_def)
  have f2: "state ?p2 = Recording" "totalNumOutputChannels ?p2 \<le> totalNumInputChannels ?p2"
    "circularBuffer ?p2 = ?rb0"
    by (simp_all add: BufferedRecorderSamplerProcessor_new_def)
  from g have gl: "length g = 2" "list_all (\<lambda>c. length c = nat 2880000) g"
    by (simp_all add: initial_memory_def)
  have gc: "length (g ! c) = 2880000" if "c < 2" for c
    using gl that by (simp add: list_all_length)
  have ok0: "ring_ok ?rb0"
    by (rule new_ring_ok [OF _ gl(2)]) simp
  have w0: "window (nat (size_rb ?rb0)) (nat (writePos ?rb0)) (buffer ?rb0 ! c) (g ! c)"
    if "c < 2" for c
    using new_window [of 2880000 "g ! c"] gc [OF that] by (simp add: CircularAudioBuffer_new_def)
  from write_all_ok [OF ok0 bs(1)] obtain rb where
    w: "write_all ?rb0 bs = Inr rb"
    and ok: "ring_ok rb" and sz: "size_rb rb = size_rb ?rb0"
    and l: "length (buffer rb) = length (buffer ?rb0)"
    and win0: "\<And>c h. c < length (buffer ?rb0) \<Longrightarrow>
       list_all (\<lambda>b. c < length b) bs \<Longrightarrow>
       window (nat (size_rb ?rb0)) (nat (writePos ?rb0)) (buffer ?rb0 ! c) h \<Longrightarrow>
       window (nat (size_rb rb)) (nat (writePos rb)) (buffer rb ! c) (h @ stream c bs)"
    by blast
  have sz': "size_rb rb = 2880000" using sz by (simp add: CircularAudioBuffer_new_def)
  have l': "length (buffer rb) = 2" using l gl(1) by (simp add: CircularAudioBuffer_new_def)
  have win: "window (nat (size_rb rb)) (nat (writePos rb)) (buffer rb ! c) (g ! c @ stream c bs)"
    if "c < 2" for c
  proof (rule win0 [OF _ _ w0 [OF that]])
    show "c < length (buffer ?rb0)" using gl(1) that by (simp add: CircularAudioBuffer_new_def)
    show "list_all (\<lambda>b. c < length b) bs" using bs(2) that by (simp add: list_all_iff)
  qed
  let ?p3 = "?p2\<lparr>circularBuffer := rb\<rparr>"
  have r3: "run R ?p2 (map (\<lambda>b. ProcessBlock b m) bs) = Inr ?p3"
    unfolding run_recording [OF f2(1,2)] f2(3) w by simp
  let ?p4 = "setBufferDuration d ?p3"
  have f4: "circularBuffer ?p4 = rb" "bufferDuration ?p4 = d" "currentSampleRate ?p4 = 48000"
    by (simp_all add: setBufferDuration_def)
  have T': "roundHalfEven (bufferDuration ?p4 * currentSampleRate ?p4) = int T"
    unfolding f4 by (rule T(1))
  have ok4: "ring_ok (circularBuffer ?p4)" unfolding f4 by (rule ok)
  have le: "int T \<le> size_rb (circularBuffer ?p4)" unfolding f4 sz' using T(2) by simp
  from enterTrimMode_window [OF ok4 T' le] obtain tb where
    e: "enterTrimMode ?p4 =
      Inr (?p4\<lparr>state := Trimming, trimmedBuffer := tb, startPosition := Fin 0, endPosition := Fin 1,
             noteHistogram := []\<rparr>)"
    and tl: "length tb = 2"
    and tw: "\<And>c h. c < 2 \<Longrightarrow> c < length (buffer (circularBuffer ?p4)) \<Longrightarrow>
       window (nat (size_rb (circularBuffer ?p4))) (nat (writePos (circularBuffer ?p4)))
         (buffer (circularBuffer ?p4) ! c) h \<Longrightarrow>
       tb ! c = take T (drop (length h - nat (size_rb (circularBuffer ?p4))) h)"
    by blast
  have tbc: "tb ! c = take T (drop (length (stream c bs)) (g ! c @ stream c bs))" if "c < 2" for c
  proof -
    have "tb ! c = take T (drop (length (g ! c @ stream c bs)
        - nat (size_rb (circularBuffer ?p4))) (g ! c @ stream c bs))"
      by (rule tw) (simp_all add: f4 l' win that)
    then show ?thesis unfolding f4 sz' using gc [OF that] by simp
  qed
  let ?p5 = "?p4\<lparr>state := Trimming, trimmedBuffer := tb, startPosition := Fin 0, endPosition := Fin 1,
             noteHistogram := []\<rparr>"
  have r5: "run R ?p3 [a] = Inr ?p5"
    using e by (simp add: a)
  have "run R ?p0 ([SetPlayConfigDetails 2 2 48000, PrepareToPlay 48000 512]
            @ map (\<lambda>b. ProcessBlock b m) bs @ [a]) = Inr ?p5"
    unfolding run_append r2 r3 sum.case r5 ..
  moreover have "state ?p5 = Trimming" "\<not> isPreviewActive ?p5" "startPosition ?p5 = Fin 0"
    "endPosition ?p5 = Fin 1" "noteHistogram ?p5 = []" "mostCommonNote ?p5 = 60"
    "totalNumInputChannels ?p5 = 2" "totalNumOutputChannels ?p5 = 2" "trimmedBuffer ?p5 = tb"
    by (simp_all add: setBufferDuration_def BufferedRecorderSamplerProcessor_new_def)
  ultimately show ?thesis using tl tbc by (intro exI [of _ ?p5]) simp
qed

lemma trim_after_recording:
  assumes g: "initial_memory g"
  shows "\<exists>p. run R (BufferedRecorderSamplerProcessor_new g t)
           ([SetPlayConfigDetails 2 2 48000, PrepareToPlay 48000 512]
            @ map (\<lambda>b. ProcessBlock b m) recorded_blocks
            @ [ButtonClicked Buffer10sButton]) = Inr p \<and>
         state p = Trimming \<and> startPosition p = Fin 0 \<and> endPosition p = Fin 1 \<and>
         noteHistogram p = [] \<and> trimmedBuffer p ! 0 = replicate 480000 (Fin 0)"
proof -
  have bs: "list_all rect recorded_blocks" "list_all (\<lambda>b. length b = 2) recorded_blocks"
    by (simp_all add: recorded_blocks_def list_all_iff rect_def getNumSamples_def
      zero_block_def one_block_def)
  have a: "step R (ButtonClicked Buffer10sButton) q = enterTrimMode (setBufferDuration 10 q)" for q
    by (simp add: buttonClicked_def)
  have T: "roundHalfEven (10 * 48000) = int 480000" by (simp add: roundHalfEven_def)
  from g have g0: "length (g ! 0) = 2880000"
    by (simp add: initial_memory_def list_all_length)
  from record_and_trim [OF g bs a T, where m = m and t = t] obtain p where
    r: "run R (BufferedRecorderSamplerProcessor_new g t)
           ([SetPlayConfigDetails 2 2 48000, PrepareToPlay 48000 512]
            @ map (\<lambda>b. ProcessBlock b m) recorded_blocks
            @ [ButtonClicked Buffer10sButton]) = Inr p"
    and f: "state p = Trimming" "startPosition p = Fin 0" "endPosition p = Fin 1" "noteHistogram p = []"
    and tb: "\<forall>c<2. trimmedBuffer p ! c =
      take 480000 (drop (length (stream c recorded_blocks)) (g ! c @ stream c recorded_blocks))"
    by auto
  from tb have "trimmedBuffer p ! 0 =
      take 480000 (drop (length (stream 0 recorded_blocks)) (g ! 0 @ stream 0 recorded_blocks))"
    by simp
  then have "trimmedBuffer p ! 0 = replicate 480000 (Fin 0)"
    unfolding recorded_stream using g0 by simp
  with r f show ?thesis by blast
qed

lemma initial_silent_memory: "initial_memory silent_memory"
  by (simp add: initial_memory_def silent_memory_def)

text \<open>
  Claim C1.  Entering the trim mode is said to leave in the trimmed buffer the most recent
  \<open>round (D * sampleRate)\<close> samples written to the ring, with the trim region reset to
  \<open>[0, 1]\<close> and the histogram cleared.  The reset and the clearing hold, the copy does
  not: \<open>copyTo (trimmed, 0, total)\<close> starts reading \<open>size\<close> samples before the write cursor,
  at the sample the ring has held longest (\<open>enterTrimMode_window\<close>).  At \<open>48\<close> kHz, after
  \<open>5624\<close> silent blocks and one block of ones, the button for \<open>10\<close> seconds leaves
  \<open>480000\<close> zeros in channel 0 of the trimmed buffer, while the last \<open>480000\<close> samples
  written end with \<open>512\<close> ones.
\<close>

theorem enterTrimMode_copies_oldest:
  "\<exists>p. run no_synth (BufferedRecorderSamplerProcessor_new silent_memory silent_memory)
          ([SetPlayConfigDetails 2 2 48000, PrepareToPlay 48000 512]
           @ map (\<lambda>b. ProcessBlock b []) recorded_blocks
           @ [ButtonClicked Buffer10sButton]) = Inr p \<and>
        state p = Trimming \<and> startPosition p = Fin 0 \<and> endPosition p = Fin 1 \<and> noteHistogram p = [] \<and>
        trimmedBuffer p ! 0 = replicate 480000 (Fin 0) \<and>
        drop (length (stream 0 recorded_blocks) - 480000) (stream 0 recorded_blocks)
          = replicate 479488 (Fin 0) @ replicate 512 (Fin 1) \<and>
        trimmedBuffer p ! 0
          \<noteq> drop (length (stream 0 recorded_blocks) - 480000) (stream 0 recorded_blocks)"
proof -
  have d: "drop (length (stream 0 recorded_blocks) - 480000) (stream 0 recorded_blocks)
      = replicate 479488 (Fin 0) @ replicate 512 (Fin 1)"
    unfolding recorded_stream by simp
  have "(replicate 479488 (Fin 0) @ replicate 512 (Fin 1)) ! 479999 = Fin 1"
    by (simp add: nth_append)
  moreover have "replicate 480000 (Fin 0 :: fl) ! 479999 = Fin 0" by simp
  ultimately have ne: "replicate 480000 (Fin 0) \<noteq> replicate 479488 (Fin 0) @ replicate 512 (Fin 1)"
    by (metis fl.inject zero_neq_one)
  from trim_after_recording [OF initial_silent_memory, of no_synth silent_memory "[]"]
  show ?thesis unfolding d using ne by auto
qed

section \<open>The preview\<close>

lemma fadd_zero: "fadd (Fin 0) x = x"
  by (cases x) simp_all

lemma map2_fadd_zero:
  "length ys = n \<Longrightarrow> map2 fadd (replicate n (Fin 0)) ys = ys"
  by (induction ys arbitrary: n) (auto simp: fadd_zero)

lemma sdiv_small: "0 \<le> d \<Longrightarrow> d < 2048 \<Longrightarrow> d sdiv int chunkSize = 0"
  by (simp add: signed_divide_int_def chunkSize_def)

text \<open>
  \<open>previewTrimmedSample\<close> on a window shorter than a chunk: the cursor goes to the start
  of the window, and no chunk is analysed.
\<close>

lemma preview_small_window:
  assumes tb: "trimmedBuffer p = a # rest" "length a = N"
    and s: "roundToInt (fmulf (startPosition p) (float_of_int (int N))) = Inr (int s)"
    and e: "roundToInt (fmulf (endPosition p) (float_of_int (int N))) = Inr (int e)"
    and w: "s \<le> e" "e \<le> N" "e - s < 2048" "0 < N"
  shows "previewTrimmedSample p =
    Inr (p\<lparr>isPreviewActive := True, previewPosition := int s,
           mostCommonNote := most_common (noteHistogram p) 0 (mostCommonNote p)\<rparr>)"
proof -
  have n: "getNumSamples (trimmedBuffer p) = int N"
    by (simp add: getNumSamples_def tb)
  have nb: "newBuffer 1 (int e - int s) = Inr [replicate (e - s) (Fin 0)]"
    using w(1) by (simp add: newBuffer_def nat_diff_distrib')
  have "copyFrom [replicate (e - s) (Fin 0)] 0 0 (a # rest) 0 (int s) (int e - int s)
      = Inr [take (e - s) (drop s a)]"
    using w(1,2) tb(2) by (simp add: copyFrom_def getNumChannels_def nat_diff_distrib')
  then have cf: "copyFrom [replicate (e - s) (Fin 0)] 0 0 (trimmedBuffer p) 0 (int s) (int e - int s)
      = Inr [take (e - s) (drop s a)]"
    unfolding tb(1) .
  have z: "(int e - int s) sdiv int chunkSize = 0"
    using w(1,3) by (intro sdiv_small) linarith+
  let ?q = "p\<lparr>isPreviewActive := True, previewPosition := int s\<rparr>"
  have q: "trimmedBuffer ?q = trimmedBuffer p" "startPosition ?q = startPosition p"
    "endPosition ?q = endPosition p" "pitchDetector ?q = pitchDetector p"
    "noteHistogram ?q = noteHistogram p" "mostCommonNote ?q = mostCommonNote p"
    by simp_all
  have n0: "getNumSamples (trimmedBuffer p) \<noteq> 0" unfolding n using w(4) by simp
  have dp: "detectPitch ?q =
      Inr (?q\<lparr>mostCommonNote := most_common (noteHistogram p) 0 (mostCommonNote p)\<rparr>)"
    unfolding detectPitch_def q Let_def n s e sum.case z
    using w(4) by simp
  show ?thesis
    unfolding previewTrimmedSample_def Let_def n s e sum.case nb cf dp by simp
qed


text \<open>
  One block of \<open>processBlock\<close> while the preview is active, for two channels: it takes
  \<open>k = min n (N - pos)\<close> samples from the cursor, \<open>N\<close> being the length of the whole trimmed
  buffer, adds them to the block, and moves the cursor by \<open>k\<close>, to \<open>0\<close> when it reaches \<open>N\<close>.
  Neither \<open>startPosition\<close> nor \<open>endPosition\<close> is read.
\<close>

lemma preview_tick:
  assumes p: "state p = Trimming" "isPreviewActive p"
      "totalNumOutputChannels p \<le> totalNumInputChannels p"
    and tb: "trimmedBuffer p = [a, b]" "length a = N" "length b = N"
    and blk: "length x = n" "length y = n" "0 < n"
    and pos: "previewPosition p = int pos" "pos < N"
    and k: "k = min n (N - pos)"
  shows "processBlock R p [x, y] m =
    Inr (p\<lparr>previewPosition := (if N \<le> pos + k then 0 else int (pos + k))\<rparr>,
         [map2 fadd (take k x) (take k (drop pos a)) @ drop k x,
          map2 fadd (take k y) (take k (drop pos b)) @ drop k y])"
proof -
  let ?z = "replicate n (Fin 0)"
  let ?u = "take k (drop pos a) @ drop k ?z"
  let ?v = "take k (drop pos b) @ drop k ?z"
  have k': "0 < k" "k \<le> n" "pos + k \<le> N" using k blk(3) pos(2) by simp_all
  have co: "clear_outputs (getNumSamples [x, y]) (totalNumInputChannels p)
      (nat (totalNumOutputChannels p - totalNumInputChannels p)) [x, y] = Inr [x, y]"
    using p(3) by simp
  have nb: "newBuffer (getNumChannels [x, y]) (getNumSamples [x, y]) = Inr [?z, ?z]"
    by (simp add: newBuffer_def getNumChannels_def getNumSamples_def blk numeral_2_eq_2)
  have stc: "min (getNumSamples [x, y]) (getNumSamples (trimmedBuffer p) - previewPosition p) = int k"
  proof -
    have "min (int n) (int N - int pos) = int (min n (N - pos))" using pos(2) by linarith
    then show ?thesis unfolding k by (simp add: getNumSamples_def tb blk pos(1))
  qed
  have c0: "copyFrom [?z, ?z] (int 0) 0 [a, b] (int 0) (int pos) (int k) = Inr [?u, ?z]"
    using k' by (simp add: copyFrom_def getNumChannels_def tb)
  have c1: "copyFrom [?u, ?z] (int (Suc 0)) 0 [a, b] (int (Suc 0)) (int pos) (int k) = Inr [?u, ?v]"
    using k' by (simp add: copyFrom_def getNumChannels_def tb)
  have cr: "copy_region (trimmedBuffer p) (previewPosition p) (int k) 0 (length [?z, ?z]) [?z, ?z]
      = Inr [?u, ?v]"
    unfolding tb(1) pos(1) length_Cons list.size numeral_2_eq_2 One_nat_def add_0
      copy_region.simps c0 c1 sum.case
    by simp
  let ?x' = "map2 fadd (take k x) (take k (drop pos a)) @ drop k x"
  let ?y' = "map2 fadd (take k y) (take k (drop pos b)) @ drop k y"
  have a0: "addFrom [x, y] (int 0) 0 [?u, ?v] (int 0) 0 (int k) = Inr [?x', y]"
    using k' by (simp add: addFrom_def getNumChannels_def tb blk)
  have a1: "addFrom [?x', y] (int (Suc 0)) 0 [?u, ?v] (int (Suc 0)) 0 (int k) = Inr [?x', ?y']"
    using k' by (simp add: addFrom_def getNumChannels_def tb blk)
  have mr: "mix_region [?u, ?v] (int k) 0 (length [x, y]) [x, y] = Inr [?x', ?y']"
    unfolding length_Cons list.size numeral_2_eq_2 One_nat_def add_0 mix_region.simps a0 a1 sum.case
    by simp
  have kpos: "(0 < int k) = True" using k'(1) by simp
  have cw: "(getNumSamples (trimmedBuffer p) \<le> int (pos + k)) = (N \<le> pos + k)"
    by (simp add: getNumSamples_def tb) linarith
  have cv: "previewPosition p + int k = int (pos + k)" unfolding pos(1) by simp
  have pa: "isPreviewActive p = True" using p(2) by simp
  show ?thesis
    by (simp only: processBlock_def Let_def co sum.case p(1) pa PluginState.distinct
        if_False if_True simp_thms nb stc kpos cr mr cw cv)
qed

lemma marked_stream:
  "c < 2 \<Longrightarrow> stream c marked_recording =
     (replicate 352 (Fin 0) @ replicate 160 (Fin 1)) @ replicate 2879488 (Fin 0)"
proof -
  assume c: "c < 2"
  have "map (\<lambda>b. b ! c) (replicate 5624 zero_block) = replicate 5624 (replicate 512 (Fin 0))"
    using c by (cases c) (simp_all add: zero_block_def)
  moreover have "marked_block ! c = replicate 352 (Fin 0) @ replicate 160 (Fin 1)"
    using c by (cases c) (simp_all add: marked_block_def)
  ultimately show ?thesis
    by (simp add: stream_def marked_recording_def concat_replicate_replicate)
qed

lemma marked_recording_ok:
  "list_all rect marked_recording" "list_all (\<lambda>b. length b = 2) marked_recording"
  by (simp_all add: marked_recording_def list_all_iff rect_def getNumSamples_def
      zero_block_def marked_block_def)

lemma list_two: "length xs = 2 \<Longrightarrow> xs = [xs ! 0, xs ! 1]"
  by (cases xs; cases "tl xs") auto

lemma position_352:
  "roundToInt (fmulf (Fin (1 / 8192)) (float_of_int 2880000)) = Inr 352"
proof -
  have "float32 (5625 / 16) = Fin (5625 / 16)"
    by (rule float32_exact [of 8 _ 11520000]) (simp_all add: pow2_def)
  moreover have "float_of_int 2880000 = Fin 2880000"
    using float_of_int_exact [of 2880000] by simp
  ultimately show ?thesis by (simp add: fmulf_def roundHalfEven_def)
qed

lemma float32_8192: "float32 (1 / 8192) = Fin (1 / 8192)"
  by (rule float32_exact [of "- 13" _ "2 ^ 23"]) (simp_all add: pow2_def)

text \<open>
  Claim C4.  A block of the preview is said to copy from the cursor at most what is left
  of the window from \<open>round (start * N)\<close> to \<open>round (end * N)\<close>, to move the cursor by what
  it copied, to take the cursor back to the start of the window when the window is
  exhausted, and to add the copy to the block.  The copy starts at the cursor and is added
  to the block, but \<open>processBlock\<close> bounds it by the end of the whole trimmed buffer and
  takes the cursor back to \<open>0\<close> (\<open>preview_tick\<close>).  At \<open>48\<close> kHz, after the recording
  \<open>marked_recording\<close>, the button for \<open>60\<close> seconds, the end slider at \<open>1 / 8192\<close> and the
  preview button, the window is the \<open>352\<close> samples from \<open>0\<close>, all zeros, and the cursor is
  \<open>0\<close>; one silent block of \<open>512\<close> samples then comes back with the \<open>160\<close> ones that follow
  the window in it, and the cursor is \<open>512\<close>, beyond the end of the window.
\<close>

theorem preview_ignores_window:
  "\<exists>p p' out.
     run no_synth (BufferedRecorderSamplerProcessor_new silent_memory silent_memory)
       ([SetPlayConfigDetails 2 2 48000, PrepareToPlay 48000 512]
        @ map (\<lambda>b. ProcessBlock b []) marked_recording
        @ [ButtonClicked Buffer60sButton, SliderValueChanged EndSlider (1 / 8192),
           ButtonClicked PreviewButton]) = Inr p \<and>
     state p = Trimming \<and> isPreviewActive p \<and> previewPosition p = 0 \<and>
     getNumSamples (trimmedBuffer p) = 2880000 \<and>
     roundToInt (fmulf (startPosition p) (float_of_int 2880000)) = Inr 0 \<and>
     roundToInt (fmulf (endPosition p) (float_of_int 2880000)) = Inr 352 \<and>
     take 352 (trimmedBuffer p ! 0) = replicate 352 (Fin 0) \<and>
     take 352 (trimmedBuffer p ! 1) = replicate 352 (Fin 0) \<and>
     processBlock no_synth p zero_block [] = Inr (p', out) \<and>
     out = marked_block \<and> previewPosition p' = 512"
proof -
  define S :: "fl list" where
    "S = (replicate 352 (Fin 0) @ replicate 160 (Fin 1)) @ replicate 2879488 (Fin 0)"
  have lS: "length S = 2880000" by (simp add: S_def)
  let ?A = "[SetPlayConfigDetails 2 2 48000, PrepareToPlay 48000 512]
        @ map (\<lambda>b. ProcessBlock b []) marked_recording @ [ButtonClicked Buffer60sButton]"
  have a: "step no_synth (ButtonClicked Buffer60sButton) q = enterTrimMode (setBufferDuration 60 q)" for q
    by (simp add: buttonClicked_def)
  have T: "roundHalfEven (60 * 48000) = int 2880000" by (simp add: roundHalfEven_def)
  from record_and_trim [OF initial_silent_memory marked_recording_ok a T,
      where m = "[]" and t = silent_memory]
  obtain p4 where r4: "run no_synth (BufferedRecorderSamplerProcessor_new silent_memory silent_memory) ?A
      = Inr p4"
    and f4: "state p4 = Trimming" "\<not> isPreviewActive p4" "startPosition p4 = Fin 0"
      "endPosition p4 = Fin 1" "noteHistogram p4 = []" "mostCommonNote p4 = 60"
      "totalNumInputChannels p4 = 2" "totalNumOutputChannels p4 = 2"
      "length (trimmedBuffer p4) = 2"
    and t4: "\<forall>c<2. trimmedBuffer p4 ! c = take 2880000
        (drop (length (stream c marked_recording)) (silent_memory ! c @ stream c marked_recording))"
    by auto
  have tc: "trimmedBuffer p4 ! c = S" if "c < 2" for c
  proof -
    have l: "length (silent_memory ! c) = 2880000"
      using that by (cases c) (simp_all add: silent_memory_def)
    have "trimmedBuffer p4 ! c = take 2880000 (drop (length S) (silent_memory ! c @ S))"
      using t4 that by (simp add: marked_stream S_def)
    then show ?thesis using l lS by simp
  qed
  have tb4: "trimmedBuffer p4 = [S, S]"
    using list_two [OF f4(9)] tc [of 0] tc [of 1] by simp
  let ?p5 = "p4\<lparr>endPosition := Fin (1 / 8192)\<rparr>"
  have s5: "step no_synth (SliderValueChanged EndSlider (1 / 8192)) p4 = Inr ?p5"
    by (simp add: sliderValueChanged_def setEndPosition_def getEndPosition_def
        getStartPosition_def Let_def float32_8192 f4)
  let ?p6 = "?p5\<lparr>isPreviewActive := True, previewPosition := int 0,
           mostCommonNote := most_common (noteHistogram ?p5) 0 (mostCommonNote ?p5)\<rparr>"
  have pv: "previewTrimmedSample ?p5 = Inr ?p6"
  proof (rule preview_small_window [where a = S and rest = "[S]" and N = 2880000 and e = 352])
    show "trimmedBuffer ?p5 = S # [S]" by (simp add: tb4)
    show "length S = 2880000" by (rule lS)
    show "roundToInt (fmulf (startPosition ?p5) (float_of_int (int 2880000))) = Inr (int 0)"
      using position_zero [of 2880000] by (simp add: f4)
    show "roundToInt (fmulf (endPosition ?p5) (float_of_int (int 2880000))) = Inr (int 352)"
      using position_352 by simp
  qed simp_all
  have s6: "step no_synth (ButtonClicked PreviewButton) ?p5 = Inr ?p6"
    using pv by (simp add: buttonClicked_def)
  have l: "[SetPlayConfigDetails 2 2 48000, PrepareToPlay 48000 512]
        @ map (\<lambda>b. ProcessBlock b []) marked_recording
        @ [ButtonClicked Buffer60sButton, SliderValueChanged EndSlider (1 / 8192),
           ButtonClicked PreviewButton]
      = ?A @ [SliderValueChanged EndSlider (1 / 8192), ButtonClicked PreviewButton]"
    by simp
  have r6: "run no_synth (BufferedRecorderSamplerProcessor_new silent_memory silent_memory)
       ([SetPlayConfigDetails 2 2 48000, PrepareToPlay 48000 512]
        @ map (\<lambda>b. ProcessBlock b []) marked_recording
        @ [ButtonClicked Buffer60sButton, SliderValueChanged EndSlider (1 / 8192),
           ButtonClicked PreviewButton]) = Inr ?p6"
    unfolding l run_append [of _ _ ?A] r4 sum.case run.simps s5 s6 ..
  let ?out = "[map2 fadd (take 512 (replicate 512 (Fin 0))) (take 512 (drop 0 S))
                 @ drop 512 (replicate 512 (Fin 0)),
               map2 fadd (take 512 (replicate 512 (Fin 0))) (take 512 (drop 0 S))
                 @ drop 512 (replicate 512 (Fin 0))]"
  let ?p7 = "?p6\<lparr>previewPosition := (if 2880000 \<le> (0::nat) + 512 then 0 else int (0 + 512))\<rparr>"
  have tk: "processBlock no_synth ?p6 [replicate 512 (Fin 0), replicate 512 (Fin 0)] [] = Inr (?p7, ?out)"
    by (rule preview_tick [where N = 2880000 and n = 512])
       (simp_all add: f4 tb4 lS)
  have t512: "take 512 S = replicate 352 (Fin 0) @ replicate 160 (Fin 1)" by (simp add: S_def)
  have o: "?out = marked_block"
    by (simp add: t512 map2_fadd_zero marked_block_def)
  have t352: "take 352 S = replicate 352 (Fin 0)" by (simp add: S_def)
  have "state ?p6 = Trimming" "isPreviewActive ?p6" "previewPosition ?p6 = 0"
    "getNumSamples (trimmedBuffer ?p6) = 2880000"
    "roundToInt (fmulf (startPosition ?p6) (float_of_int 2880000)) = Inr 0"
    "roundToInt (fmulf (endPosition ?p6) (float_of_int 2880000)) = Inr 352"
    "take 352 (trimmedBuffer ?p6 ! 0) = replicate 352 (Fin 0)"
    "take 352 (trimmedBuffer ?p6 ! 1) = replicate 352 (Fin 0)"
    using position_zero [of 2880000] position_352
    by (simp_all add: f4 tb4 getNumSamples_def lS t352)
  moreover have "processBlock no_synth ?p6 zero_block [] = Inr (?p7, marked_block)"
    using tk unfolding o zero_block_def .
  moreover have "previewPosition ?p7 = 512" by simp
  ultimately show ?thesis using r6 by blast
qed

end
